theory Spec2Isabelle
  imports Main "HOL-Library.Finite_Map" "HOL-Library.Multiset" "HOL-Library.Sublist"
begin

section \<open>Data model (alert.go, webhook.go, app.go)\<close>

text \<open>
  A Go \<^verbatim>\<open>map[string]string\<close> is a finite map; \<^verbatim>\<open>len(m)\<close> is the number of its
  keys, and a nil map has length 0 like the empty one. A \<^verbatim>\<open>time.Time\<close> obtained
  from \<^verbatim>\<open>time.Now()\<close> carries a wall clock reading (what \<^verbatim>\<open>UnixNano()\<close> returns)
  and a monotonic reading (what \<^verbatim>\<open>After\<close> compares when both operands have one,
  as every stored timestamp does).
\<close>

record Time =
  UnixNano :: int
  monotonic :: int

definition After :: "Time \<Rightarrow> Time \<Rightarrow> bool" where
  "After t u = (monotonic u < monotonic t)"

record Alert =
  Status :: string
  Labels :: "(string, string) fmap"
  StartsAt :: int
  EndsAt :: "int option"
  GeneratorURL :: string

text \<open>Of the webhook payload only \<^verbatim>\<open>Status\<close> and \<^verbatim>\<open>Alerts\<close> are read by the store.\<close>

record WebhookPayload =
  Status :: string
  Alerts :: "Alert list"

record AlertEntry =
  ID :: string
  Timestamp :: Time
  Alert :: Alert

text \<open>
  The store part of \<^verbatim>\<open>AppState\<close>: the mutex, the configuration and the sound fields
  belong to the alarm loop and are left out. \<^verbatim>\<open>acknowledged\<close> is a
  \<^verbatim>\<open>map[string]bool\<close>; reading a missing key yields \<^verbatim>\<open>false\<close>.
\<close>

record AppState =
  alerts :: "AlertEntry list"
  maxSize :: int
  acknowledged :: "(string, bool) fmap"

definition NewAppState :: "int \<Rightarrow> AppState" where
  "NewAppState n = \<lparr>alerts = [], maxSize = n, acknowledged = fmempty\<rparr>"

definition isAck :: "(string, bool) fmap \<Rightarrow> string \<Rightarrow> bool" where
  "isAck ack k = (case fmlookup ack k of None \<Rightarrow> False | Some b \<Rightarrow> b)"

datatype error = SliceBoundsOutOfRange

section \<open>alertsMatch (alert.go)\<close>

text \<open>
  The two \<^verbatim>\<open>range\<close> loops return false at the first label that the other map lacks
  or maps to another value; the iteration order does not matter for the result.
\<close>

definition alertsMatch :: "Alert \<Rightarrow> Alert \<Rightarrow> bool" where
  "alertsMatch resolvedAlert firingAlert =
     (if fcard (fmdom (Labels resolvedAlert)) = 0 \<or> fcard (fmdom (Labels firingAlert)) = 0 then False
      else if fcard (fmdom (Labels resolvedAlert)) \<noteq> fcard (fmdom (Labels firingAlert)) then False
      else if \<not> fmpred (\<lambda>key resolvedValue. fmlookup (Labels firingAlert) key = Some resolvedValue)
                   (Labels resolvedAlert) then False
      else if \<not> fmpred (\<lambda>key firingValue. fmlookup (Labels resolvedAlert) key = Some firingValue)
                   (Labels firingAlert) then False
      else True)"

section \<open>Identifiers: \<^verbatim>\<open>fmt.Sprintf("%d-%d", baseID, i)\<close>\<close>

definition digitChar :: "nat \<Rightarrow> char" where
  "digitChar d =
     (if d = 0 then CHR ''0'' else if d = 1 then CHR ''1'' else if d = 2 then CHR ''2''
      else if d = 3 then CHR ''3'' else if d = 4 then CHR ''4'' else if d = 5 then CHR ''5''
      else if d = 6 then CHR ''6'' else if d = 7 then CHR ''7'' else if d = 8 then CHR ''8''
      else CHR ''9'')"

fun showNat :: "nat \<Rightarrow> string" where
  "showNat n = (if n < 10 then [digitChar n] else showNat (n div 10) @ [digitChar (n mod 10)])"

definition showInt :: "int \<Rightarrow> string" where
  "showInt i = (if i < 0 then CHR ''-'' # showNat (nat (- i)) else showNat (nat i))"

definition mkID :: "int \<Rightarrow> nat \<Rightarrow> string" where
  "mkID baseID i = showInt baseID @ ''-'' @ showNat i"

section \<open>The store operations (app.go)\<close>

fun hasResolvedAlerts :: "Alert list \<Rightarrow> bool" where
  "hasResolvedAlerts [] = False"
| "hasResolvedAlerts (alert # rest) =
     (if Alert.Status alert = ''resolved'' then True else hasResolvedAlerts rest)"

text \<open>The inner loop of \<^verbatim>\<open>removeMatchingFiringAlerts\<close>: the first resolved alert that
  matches the entry's alert, if any (\<^verbatim>\<open>break\<close> at the first match).\<close>

fun findMatch :: "Alert list \<Rightarrow> Alert \<Rightarrow> Alert option" where
  "findMatch [] firingAlert = None"
| "findMatch (resolvedAlert # rest) firingAlert =
     (if alertsMatch resolvedAlert firingAlert then Some resolvedAlert
      else findMatch rest firingAlert)"

text \<open>Lines 115-128: \<^verbatim>\<open>shouldRemove\<close> and \<^verbatim>\<open>matchedResolvedAlert\<close> for one stored
  entry; only an entry whose status is firing is compared.\<close>

definition entryMatch :: "Alert list \<Rightarrow> AlertEntry \<Rightarrow> Alert option" where
  "entryMatch resolved entry =
     (if Alert.Status (Alert entry) = ''firing'' then findMatch resolved (Alert entry) else None)"

text \<open>The outer loop over \<^verbatim>\<open>a.alerts\<close>, with its three accumulators: \<^verbatim>\<open>filtered\<close>,
  the acknowledged map and \<^verbatim>\<open>matchedResolvedAlerts\<close>.\<close>

fun removeLoop ::
  "Alert list \<Rightarrow> AlertEntry list \<Rightarrow> AlertEntry list \<Rightarrow> (string, bool) fmap \<Rightarrow> Alert list
    \<Rightarrow> AlertEntry list \<times> (string, bool) fmap \<times> Alert list" where
  "removeLoop resolved [] filtered ack matched = (filtered, ack, matched)"
| "removeLoop resolved (entry # rest) filtered ack matched =
     (case entryMatch resolved entry of
        None \<Rightarrow> removeLoop resolved rest (filtered @ [entry]) ack matched
      | Some matchedResolvedAlert \<Rightarrow>
          removeLoop resolved rest filtered (fmdrop (ID entry) ack) (matched @ [matchedResolvedAlert]))"

definition removeMatchingFiringAlerts :: "AppState \<Rightarrow> Alert list \<Rightarrow> AppState \<times> Alert list" where
  "removeMatchingFiringAlerts a resolvedAlerts =
     (let resolved = filter (\<lambda>alert. Alert.Status alert = ''resolved'') resolvedAlerts in
      if length resolved = 0 then (a, [])
      else (case removeLoop resolved (alerts a) [] (acknowledged a) [] of
              (filtered, ack, matched) \<Rightarrow> (a\<lparr>alerts := filtered, acknowledged := ack\<rparr>, matched)))"

text \<open>The loop of \<^verbatim>\<open>AddWebhook\<close> over \<^verbatim>\<open>payload.Alerts\<close> with index \<^verbatim>\<open>i\<close>; the
  accumulator is \<^verbatim>\<open>a.alerts\<close>, to which each accepted alert is prepended.\<close>

fun matchedBy :: "Alert \<Rightarrow> Alert list \<Rightarrow> bool" where
  "matchedBy alert [] = False"
| "matchedBy alert (matchedAlert # rest) =
     (if alertsMatch alert matchedAlert then True else matchedBy alert rest)"

fun insertLoop :: "Time \<Rightarrow> Alert list \<Rightarrow> nat \<Rightarrow> Alert list \<Rightarrow> AlertEntry list \<Rightarrow> AlertEntry list" where
  "insertLoop timestamp matched i [] stored = stored"
| "insertLoop timestamp matched i (alert # rest) stored =
     (if Alert.Status alert = ''resolved'' \<and> \<not> matchedBy alert matched
      then insertLoop timestamp matched (Suc i) rest stored
      else insertLoop timestamp matched (Suc i) rest
             (\<lparr>ID = mkID (UnixNano timestamp) i, Timestamp = timestamp, Alert = alert\<rparr> # stored))"

text \<open>The state after reconciliation and insertion, before the truncation of lines 75-77.\<close>

definition ingested :: "AppState \<Rightarrow> Time \<Rightarrow> WebhookPayload \<Rightarrow> AppState" where
  "ingested a timestamp payload =
     (case (if Status payload = ''resolved'' \<or> hasResolvedAlerts (Alerts payload)
            then removeMatchingFiringAlerts a (Alerts payload) else (a, [])) of
        (a1, matchedResolvedAlerts) \<Rightarrow>
          a1\<lparr>alerts := insertLoop timestamp matchedResolvedAlerts 0 (Alerts payload) (alerts a1)\<rparr>)"

text \<open>\<^verbatim>\<open>a.alerts[:a.maxSize]\<close> panics when \<^verbatim>\<open>maxSize\<close> is negative. The timestamp is
  the value \<^verbatim>\<open>time.Now()\<close> returned in this call.\<close>

definition AddWebhook :: "AppState \<Rightarrow> Time \<Rightarrow> WebhookPayload \<Rightarrow> error + AppState" where
  "AddWebhook a timestamp payload =
     (let a2 = ingested a timestamp payload in
      if int (length (alerts a2)) > maxSize a2
      then (if maxSize a2 < 0 then Inl SliceBoundsOutOfRange
            else Inr (a2\<lparr>alerts := take (nat (maxSize a2)) (alerts a2)\<rparr>))
      else Inr a2)"

definition getAlertPriority :: "string \<Rightarrow> bool \<Rightarrow> int" where
  "getAlertPriority status ack =
     (if status = ''firing'' \<and> \<not> ack then 0
      else if status = ''firing'' \<and> ack then 1
      else 2)"

definition alertLess :: "AppState \<Rightarrow> AlertEntry \<Rightarrow> AlertEntry \<Rightarrow> bool" where
  "alertLess a iEntry jEntry =
     (let iAcknowledged = isAck (acknowledged a) (ID iEntry);
          jAcknowledged = isAck (acknowledged a) (ID jEntry);
          iPriority = getAlertPriority (Alert.Status (Alert iEntry)) iAcknowledged;
          jPriority = getAlertPriority (Alert.Status (Alert jEntry)) jAcknowledged
      in if iPriority \<noteq> jPriority then iPriority < jPriority
         else After (Timestamp iEntry) (Timestamp jEntry))"

text \<open>\<^verbatim>\<open>sort.Slice\<close> is the standard library's comparison sort (not stable): it
  returns a permutation in which no element is \<^verbatim>\<open>less\<close> than one before it. It is
  represented by insertion with the same \<^verbatim>\<open>less\<close>.\<close>

fun insertBy :: "('a \<Rightarrow> 'a \<Rightarrow> bool) \<Rightarrow> 'a \<Rightarrow> 'a list \<Rightarrow> 'a list" where
  "insertBy lt x [] = [x]"
| "insertBy lt x (y # ys) = (if lt y x then y # insertBy lt x ys else x # y # ys)"

fun sortSlice :: "('a \<Rightarrow> 'a \<Rightarrow> bool) \<Rightarrow> 'a list \<Rightarrow> 'a list" where
  "sortSlice lt [] = []"
| "sortSlice lt (x # xs) = insertBy lt x (sortSlice lt xs)"

definition GetAlerts :: "AppState \<Rightarrow> AlertEntry list" where
  "GetAlerts a = sortSlice (alertLess a) (alerts a)"

fun HasUnacknowledgedLoop :: "(string, bool) fmap \<Rightarrow> AlertEntry list \<Rightarrow> bool" where
  "HasUnacknowledgedLoop ack [] = False"
| "HasUnacknowledgedLoop ack (entry # rest) =
     (if isAck ack (ID entry) then HasUnacknowledgedLoop ack rest
      else if Alert.Status (Alert entry) = ''firing'' then True
      else HasUnacknowledgedLoop ack rest)"

definition HasUnacknowledgedAlerts :: "AppState \<Rightarrow> bool" where
  "HasUnacknowledgedAlerts a = HasUnacknowledgedLoop (acknowledged a) (alerts a)"

definition IsAcknowledged :: "AppState \<Rightarrow> string \<Rightarrow> bool" where
  "IsAcknowledged a alertID = isAck (acknowledged a) alertID"

definition Acknowledge :: "AppState \<Rightarrow> string \<Rightarrow> AppState" where
  "Acknowledge a alertID = a\<lparr>acknowledged := fmupd alertID True (acknowledged a)\<rparr>"

text \<open>The test of line 228, \<^verbatim>\<open>entry.Alert.Status == "firing" && !isAcknowledged\<close>.\<close>

definition firingUnacknowledged :: "(string, bool) fmap \<Rightarrow> AlertEntry \<Rightarrow> bool" where
  "firingUnacknowledged ack entry =
     (Alert.Status (Alert entry) = ''firing'' \<and> \<not> isAck ack (ID entry))"

fun clearLoop ::
  "AlertEntry list \<Rightarrow> AlertEntry list \<Rightarrow> (string, bool) fmap \<Rightarrow> int
    \<Rightarrow> AlertEntry list \<times> (string, bool) fmap \<times> int" where
  "clearLoop [] filtered ack clearedCount = (filtered, ack, clearedCount)"
| "clearLoop (entry # rest) filtered ack clearedCount =
     (if firingUnacknowledged ack entry
      then clearLoop rest (filtered @ [entry]) ack clearedCount
      else clearLoop rest filtered (fmdrop (ID entry) ack) (clearedCount + 1))"

definition ClearAcknowledgedAndResolved :: "AppState \<Rightarrow> AppState \<times> int" where
  "ClearAcknowledgedAndResolved a =
     (case clearLoop (alerts a) [] (acknowledged a) 0 of
        (filtered, ack, clearedCount) \<Rightarrow> (a\<lparr>alerts := filtered, acknowledged := ack\<rparr>, clearedCount))"

text \<open>Sequences of store operations, each ingestion with the clock reading of its call.\<close>

datatype operation = Ingest Time WebhookPayload | Ack string | Clear

fun step :: "AppState \<Rightarrow> operation \<Rightarrow> error + AppState" where
  "step a (Ingest timestamp payload) = AddWebhook a timestamp payload"
| "step a (Ack alertID) = Inr (Acknowledge a alertID)"
| "step a Clear = Inr (fst (ClearAcknowledgedAndResolved a))"

fun run :: "AppState \<Rightarrow> operation list \<Rightarrow> error + AppState" where
  "run a [] = Inr a"
| "run a (x # xs) = (case step a x of Inl e \<Rightarrow> Inl e | Inr a' \<Rightarrow> run a' xs)"

text \<open>The wall clock readings of the ingestions of a sequence, in order.\<close>

fun ingestTimes :: "operation list \<Rightarrow> int list" where
  "ingestTimes [] = []"
| "ingestTimes (Ingest timestamp payload # rest) = UnixNano timestamp # ingestTimes rest"
| "ingestTimes (Ack alertID # rest) = ingestTimes rest"
| "ingestTimes (Clear # rest) = ingestTimes rest"

text \<open>The states reached from the empty store by ingestions that the \<^verbatim>\<open>maxSize\<close>
  truncation leaves whole, acknowledgements of stored entries, and clearings.\<close>

inductive reachedKeepingAll :: "int \<Rightarrow> AppState \<Rightarrow> bool" for n :: int where
  reached_new: "reachedKeepingAll n (NewAppState n)"
| reached_ingest:
    "reachedKeepingAll n a \<Longrightarrow> AddWebhook a timestamp payload = Inr a' \<Longrightarrow>
       int (length (alerts (ingested a timestamp payload))) \<le> maxSize a \<Longrightarrow>
       reachedKeepingAll n a'"
| reached_acknowledge:
    "reachedKeepingAll n a \<Longrightarrow> entry \<in> set (alerts a) \<Longrightarrow>
       reachedKeepingAll n (Acknowledge a (ID entry))"
| reached_clear:
    "reachedKeepingAll n a \<Longrightarrow> reachedKeepingAll n (fst (ClearAcknowledgedAndResolved a))"

code_pred reachedKeepingAll .

text \<open>Sample data for the scenarios: an alert with the single label \<^verbatim>\<open>alertname\<close>, and
  a clock reading whose wall and monotonic parts agree.\<close>

abbreviation sampleAlert :: "string \<Rightarrow> string \<Rightarrow> Alert" where
  "sampleAlert status name \<equiv>
     \<lparr>Alert.Status = status, Labels = fmupd ''alertname'' name fmempty,
      StartsAt = 0, EndsAt = None, GeneratorURL = []\<rparr>"

abbreviation clock :: "int \<Rightarrow> Time" where
  "clock n \<equiv> \<lparr>UnixNano = n, monotonic = n\<rparr>"

section \<open>Label matching\<close>

lemma fmdom_fempty_iff: "fmdom m = {||} \<longleftrightarrow> m = fmempty"
proof
  assume "fmdom m = {||}"
  then have "\<And>k. fmlookup m k = None"
    by (metis fmdom_notD fempty_iff)
  then show "m = fmempty" by (intro fmap_ext) simp
qed simp

lemma fmpred_both_eq:
  assumes "fmpred (\<lambda>k v. fmlookup b k = Some v) a" and "fmpred (\<lambda>k v. fmlookup a k = Some v) b"
  shows "a = b"
proof (rule fmap_ext)
  fix k
  show "fmlookup a k = fmlookup b k"
  proof (cases "fmlookup a k")
    case None
    with assms(2) show ?thesis by (cases "fmlookup b k") (auto simp: fmpred_iff)
  next
    case (Some v)
    with assms(1) show ?thesis by (auto simp: fmpred_iff)
  qed
qed

lemma alertsMatch_labels:
  "alertsMatch r f \<longleftrightarrow> Labels r = Labels f \<and> Labels r \<noteq> fmempty"
proof
  assume m: "alertsMatch r f"
  then have ne: "fcard (fmdom (Labels r)) \<noteq> 0"
    and p1: "fmpred (\<lambda>k v. fmlookup (Labels f) k = Some v) (Labels r)"
    and p2: "fmpred (\<lambda>k v. fmlookup (Labels r) k = Some v) (Labels f)"
    by (auto simp: alertsMatch_def split: if_splits)
  from p1 p2 have "Labels r = Labels f" by (rule fmpred_both_eq)
  moreover from ne have "Labels r \<noteq> fmempty" by auto
  ultimately show "Labels r = Labels f \<and> Labels r \<noteq> fmempty" ..
next
  assume a: "Labels r = Labels f \<and> Labels r \<noteq> fmempty"
  then have "fmdom (Labels f) \<noteq> {||}" by (auto simp: fmdom_fempty_iff)
  then have "fcard (fmdom (Labels f)) \<noteq> 0" by (simp add: fcard_fempty)
  moreover have "fmpred (\<lambda>k v. fmlookup (Labels f) k = Some v) (Labels f)"
    by (simp add: fmpred_iff)
  ultimately show "alertsMatch r f" using a by (simp add: alertsMatch_def)
qed

text \<open>
  Claim C1. The match predicate holds for a resolved alert and a firing alert exactly when
  their label maps are equal as finite maps and not empty; hence it is symmetric, and an
  alert with no labels matches nothing.
\<close>

theorem alertsMatch_exact_symmetric:
  "(alertsMatch R F \<longleftrightarrow>
      fmdom (Labels R) = fmdom (Labels F)
      \<and> fBall (fmdom (Labels R)) (\<lambda>k. fmlookup (Labels R) k = fmlookup (Labels F) k)
      \<and> Labels R \<noteq> fmempty \<and> Labels F \<noteq> fmempty)
   \<and> (alertsMatch R F \<longleftrightarrow> Labels R = Labels F \<and> Labels R \<noteq> fmempty)
   \<and> alertsMatch R F = alertsMatch F R
   \<and> (Labels R = fmempty \<or> Labels F = fmempty \<longrightarrow> \<not> alertsMatch R F)"
proof -
  have eq: "Labels R = Labels F \<longleftrightarrow>
      fmdom (Labels R) = fmdom (Labels F)
      \<and> fBall (fmdom (Labels R)) (\<lambda>k. fmlookup (Labels R) k = fmlookup (Labels F) k)"
  proof
    assume r: "fmdom (Labels R) = fmdom (Labels F)
      \<and> fBall (fmdom (Labels R)) (\<lambda>k. fmlookup (Labels R) k = fmlookup (Labels F) k)"
    show "Labels R = Labels F"
    proof (rule fmap_ext)
      fix k
      show "fmlookup (Labels R) k = fmlookup (Labels F) k"
      proof (cases "k |\<in>| fmdom (Labels R)")
        case True
        with r show ?thesis by auto
      next
        case False
        with r have "fmlookup (Labels R) k = None" "fmlookup (Labels F) k = None"
          by (auto dest: fmdom_notD)
        then show ?thesis by simp
      qed
    qed
  qed auto
  have sym: "alertsMatch R F = alertsMatch F R"
    using alertsMatch_labels [of R F] alertsMatch_labels [of F R] by metis
  have empty: "Labels R = fmempty \<or> Labels F = fmempty \<longrightarrow> \<not> alertsMatch R F"
    using alertsMatch_labels [of R F] by metis
  have exact: "alertsMatch R F \<longleftrightarrow>
      fmdom (Labels R) = fmdom (Labels F)
      \<and> fBall (fmdom (Labels R)) (\<lambda>k. fmlookup (Labels R) k = fmlookup (Labels F) k)
      \<and> Labels R \<noteq> fmempty \<and> Labels F \<noteq> fmempty"
    using alertsMatch_labels [of R F] eq by metis
  from exact alertsMatch_labels [of R F] sym empty show ?thesis by blast
qed

theorem alertsMatch_exact_symmetric_witness:
  "alertsMatch \<lparr>Alert.Status = ''resolved'', Labels = fmupd ''alertname'' ''A'' fmempty,
        StartsAt = 0, EndsAt = Some 5, GeneratorURL = []\<rparr>
     \<lparr>Alert.Status = ''firing'', Labels = fmupd ''alertname'' ''A'' fmempty,
        StartsAt = 0, EndsAt = None, GeneratorURL = []\<rparr>
   \<and> \<not> alertsMatch \<lparr>Alert.Status = ''resolved'', Labels = fmempty,
        StartsAt = 0, EndsAt = Some 5, GeneratorURL = []\<rparr>
     \<lparr>Alert.Status = ''firing'', Labels = fmempty,
        StartsAt = 0, EndsAt = None, GeneratorURL = []\<rparr>"
  using alertsMatch_exact_symmetric
    [of "\<lparr>Alert.Status = ''resolved'', Labels = fmupd ''alertname'' ''A'' fmempty,
           StartsAt = 0, EndsAt = Some 5, GeneratorURL = []\<rparr>"
        "\<lparr>Alert.Status = ''firing'', Labels = fmupd ''alertname'' ''A'' fmempty,
           StartsAt = 0, EndsAt = None, GeneratorURL = []\<rparr>"]
    alertsMatch_exact_symmetric
    [of "\<lparr>Alert.Status = ''resolved'', Labels = fmempty,
           StartsAt = 0, EndsAt = Some 5, GeneratorURL = []\<rparr>"
        "\<lparr>Alert.Status = ''firing'', Labels = fmempty,
           StartsAt = 0, EndsAt = None, GeneratorURL = []\<rparr>"]
  by simp

section \<open>The loops in closed form\<close>

lemma findMatch_None: "findMatch rs f = None \<longleftrightarrow> (\<forall>r\<in>set rs. \<not> alertsMatch r f)"
  by (induction rs) auto

lemma findMatch_Some: "findMatch rs f = Some r \<Longrightarrow> r \<in> set rs \<and> alertsMatch r f"
  by (induction rs) (auto split: if_splits)

lemma findMatch_first:
  "findMatch rs f = Some r \<Longrightarrow>
     \<exists>pre post. rs = pre @ r # post \<and> alertsMatch r f \<and> (\<forall>q\<in>set pre. \<not> alertsMatch q f)"
proof (induction rs)
  case Nil
  then show ?case by simp
next
  case (Cons a rs)
  show ?case
  proof (cases "alertsMatch a f")
    case True
    with Cons.prems have "a = r" by simp
    with True have "a # rs = [] @ r # rs \<and> alertsMatch r f \<and> (\<forall>q\<in>set []. \<not> alertsMatch q f)" by simp
    then show ?thesis by blast
  next
    case False
    with Cons obtain pre post where "rs = pre @ r # post" "alertsMatch r f" "\<forall>q\<in>set pre. \<not> alertsMatch q f"
      by auto
    with False have "a # rs = (a # pre) @ r # post \<and> alertsMatch r f \<and> (\<forall>q\<in>set (a # pre). \<not> alertsMatch q f)"
      by simp
    then show ?thesis by blast
  qed
qed

lemma entryMatch_None:
  "entryMatch rs e = None \<longleftrightarrow>
     \<not> (Alert.Status (Alert e) = ''firing'' \<and> (\<exists>r\<in>set rs. alertsMatch r (Alert e)))"
  by (simp add: entryMatch_def findMatch_None)

lemma removeLoop_eq:
  "removeLoop rs es fl ack m =
     (fl @ filter (\<lambda>e. entryMatch rs e = None) es,
      fmdrop_fset (fset_of_list (map ID (filter (\<lambda>e. entryMatch rs e \<noteq> None) es))) ack,
      m @ List.map_filter (entryMatch rs) es)"
proof (induction es arbitrary: fl ack m)
  case Nil
  then show ?case by (simp add: List.map_filter_simps)
next
  case (Cons e es)
  show ?case
  proof (cases "entryMatch rs e")
    case None
    then show ?thesis by (simp add: Cons.IH List.map_filter_simps)
  next
    case (Some r)
    then show ?thesis by (simp add: Cons.IH List.map_filter_simps)
  qed
qed

lemma matchedBy_iff: "matchedBy a m \<longleftrightarrow> (\<exists>x\<in>set m. alertsMatch a x)"
  by (induction m) auto

lemma insertLoop_eq:
  "insertLoop ts m i as stored =
     rev (map (\<lambda>(j, a). \<lparr>ID = mkID (UnixNano ts) j, Timestamp = ts, Alert = a\<rparr>)
            (filter (\<lambda>(j, a). \<not> (Alert.Status a = ''resolved'' \<and> \<not> matchedBy a m)) (zip [i..<i + length as] as))) @ stored"
proof (induction as arbitrary: i stored)
  case Nil
  then show ?case by simp
next
  case (Cons a as)
  have z: "zip [i..<i + length (a # as)] (a # as) = (i, a) # zip [Suc i..<Suc i + length as] as"
    by (simp add: upt_conv_Cons del: upt_Suc)
  show ?case unfolding z by (simp add: Cons.IH)
qed


lemma removeMatchingFiringAlerts_eq:
  "removeMatchingFiringAlerts a as =
     (a\<lparr>alerts := filter (\<lambda>e. entryMatch (filter (\<lambda>x. Alert.Status x = ''resolved'') as) e = None) (alerts a),
        acknowledged := fmdrop_fset (fset_of_list (map ID
            (filter (\<lambda>e. entryMatch (filter (\<lambda>x. Alert.Status x = ''resolved'') as) e \<noteq> None) (alerts a))))
            (acknowledged a)\<rparr>,
      List.map_filter (entryMatch (filter (\<lambda>x. Alert.Status x = ''resolved'') as)) (alerts a))"
proof (cases "filter (\<lambda>x. Alert.Status x = ''resolved'') as = []")
  case True
  have "\<And>e. entryMatch [] e = None" by (simp add: entryMatch_def)
  then show ?thesis using True
    by (simp add: removeMatchingFiringAlerts_def List.map_filter_def)
next
  case False
  then show ?thesis
    by (simp add: removeMatchingFiringAlerts_def removeLoop_eq Let_def)
qed

lemma hasResolvedAlerts_iff: "hasResolvedAlerts as \<longleftrightarrow> (\<exists>x\<in>set as. Alert.Status x = ''resolved'')"
  by (induction as) auto

text \<open>Reconciliation runs or not: the result is the same when the payload has no resolved alert.\<close>

lemma reconcile_uniform:
  "(if st = ''resolved'' \<or> hasResolvedAlerts as then removeMatchingFiringAlerts a as else (a, []))
     = removeMatchingFiringAlerts a as"
proof (cases "hasResolvedAlerts as")
  case True
  then show ?thesis by simp
next
  case False
  then have "filter (\<lambda>x. Alert.Status x = ''resolved'') as = []"
    by (auto simp: hasResolvedAlerts_iff filter_empty_conv)
  then show ?thesis by (simp add: removeMatchingFiringAlerts_def)
qed

lemma ingested_eq:
  "ingested a ts p =
     (case removeMatchingFiringAlerts a (Alerts p) of
        (a1, m) \<Rightarrow> a1\<lparr>alerts := insertLoop ts m 0 (Alerts p) (alerts a1)\<rparr>)"
  by (simp add: ingested_def reconcile_uniform)

lemma maxSize_ingested: "maxSize (ingested a ts p) = maxSize a"
  by (simp add: ingested_eq removeMatchingFiringAlerts_eq)

lemma length_map_filter:
  "length (List.map_filter f xs) = length xs - length (filter (\<lambda>x. f x = None) xs)"
proof (induction xs)
  case Nil
  then show ?case by (simp add: List.map_filter_simps)
next
  case (Cons x xs)
  have "length (filter (\<lambda>x. f x = None) xs) \<le> length xs" by simp
  with Cons show ?case by (cases "f x") (auto simp: List.map_filter_simps Suc_diff_le)
qed

lemma entryMatch_filter_resolved:
  "entryMatch (filter (\<lambda>x. Alert.Status x = ''resolved'') as) e = None \<longleftrightarrow>
     \<not> (Alert.Status (Alert e) = ''firing''
        \<and> (\<exists>r\<in>set as. Alert.Status r = ''resolved'' \<and> alertsMatch r (Alert e)))"
  by (auto simp: entryMatch_None)

lemma entryMatch_first:
  assumes "entryMatch rs e = Some r"
  shows "Alert.Status (Alert e) = ''firing'' \<and>
     (\<exists>pre post. rs = pre @ r # post \<and> alertsMatch r (Alert e) \<and> (\<forall>q\<in>set pre. \<not> alertsMatch q (Alert e)))"
  using assms findMatch_first [of rs "Alert e" r]
  by (auto simp: entryMatch_def split: if_splits)

lemma fmupd_single_eq:
  "fmupd k v fmempty = fmupd k' v' fmempty \<longleftrightarrow> k = k' \<and> v = v'"
proof
  assume e: "fmupd k v fmempty = fmupd k' v' fmempty"
  then have "fmlookup (fmupd k v fmempty) k = fmlookup (fmupd k' v' fmempty) k" by simp
  then show "k = k' \<and> v = v'" by (simp split: if_splits)
qed simp

lemmas eval_simps = alertsMatch_labels entryMatch_def removeMatchingFiringAlerts_def
  ingested_def AddWebhook_def NewAppState_def fmupd_single_eq Let_def

lemmas eval_id = mkID_def showInt_def digitChar_def

section \<open>Reconciliation\<close>

text \<open>
  Claim C3, as amended. The reconciliation pass removes exactly the stored firing entries
  that match some resolved alert of the notification, however many they are: one resolved
  alert removes every stored firing entry carrying its label set. Each removed entry is
  recorded once, under the first resolved alert of the notification that matches it, and
  the entries that match none are kept in their order.
\<close>

theorem reconciliation_removes_all_matching:
  assumes "removeMatchingFiringAlerts a as = (a', matched)"
  shows "alerts a' = filter (\<lambda>e. \<not> (Alert.Status (Alert e) = ''firing''
                  \<and> (\<exists>r\<in>set as. Alert.Status r = ''resolved'' \<and> alertsMatch r (Alert e)))) (alerts a)
    \<and> length matched = length (alerts a) - length (alerts a')
    \<and> matched = List.map_filter (entryMatch (filter (\<lambda>x. Alert.Status x = ''resolved'') as)) (alerts a)
    \<and> (\<forall>e r. entryMatch (filter (\<lambda>x. Alert.Status x = ''resolved'') as) e = Some r \<longrightarrow>
          (\<exists>pre post. filter (\<lambda>x. Alert.Status x = ''resolved'') as = pre @ r # post
              \<and> alertsMatch r (Alert e) \<and> (\<forall>q\<in>set pre. \<not> alertsMatch q (Alert e))))"
proof -
  let ?rs = "filter (\<lambda>x. Alert.Status x = ''resolved'') as"
  from assms have a': "alerts a' = filter (\<lambda>e. entryMatch ?rs e = None) (alerts a)"
    and m: "matched = List.map_filter (entryMatch ?rs) (alerts a)"
    by (auto simp: removeMatchingFiringAlerts_eq)
  have 1: "alerts a' = filter (\<lambda>e. \<not> (Alert.Status (Alert e) = ''firing''
                  \<and> (\<exists>r\<in>set as. Alert.Status r = ''resolved'' \<and> alertsMatch r (Alert e)))) (alerts a)"
    unfolding a' by (simp only: entryMatch_filter_resolved)
  have 2: "length matched = length (alerts a) - length (alerts a')"
    unfolding m a' by (rule length_map_filter)
  have 3: "\<forall>e r. entryMatch ?rs e = Some r \<longrightarrow>
          (\<exists>pre post. ?rs = pre @ r # post
              \<and> alertsMatch r (Alert e) \<and> (\<forall>q\<in>set pre. \<not> alertsMatch q (Alert e)))"
    using entryMatch_first by blast
  from 1 2 m 3 show ?thesis by blast
qed

theorem reconciliation_removes_all_matching_witness:
  "alerts (fst (removeMatchingFiringAlerts
      \<lparr>alerts = [\<lparr>ID = ''2-0'', Timestamp = clock 2, Alert = sampleAlert ''firing'' ''A''\<rparr>,
                 \<lparr>ID = ''1-0'', Timestamp = clock 1, Alert = sampleAlert ''firing'' ''B''\<rparr>],
       maxSize = 100, acknowledged = fmempty\<rparr>
      [sampleAlert ''resolved'' ''A''])) =
    [\<lparr>ID = ''1-0'', Timestamp = clock 1, Alert = sampleAlert ''firing'' ''B''\<rparr>]"
  using reconciliation_removes_all_matching
    [of "\<lparr>alerts = [\<lparr>ID = ''2-0'', Timestamp = clock 2, Alert = sampleAlert ''firing'' ''A''\<rparr>,
                 \<lparr>ID = ''1-0'', Timestamp = clock 1, Alert = sampleAlert ''firing'' ''B''\<rparr>],
       maxSize = 100, acknowledged = fmempty\<rparr>"
      "[sampleAlert ''resolved'' ''A'']"
      "fst (removeMatchingFiringAlerts
      \<lparr>alerts = [\<lparr>ID = ''2-0'', Timestamp = clock 2, Alert = sampleAlert ''firing'' ''A''\<rparr>,
                 \<lparr>ID = ''1-0'', Timestamp = clock 1, Alert = sampleAlert ''firing'' ''B''\<rparr>],
       maxSize = 100, acknowledged = fmempty\<rparr>
      [sampleAlert ''resolved'' ''A''])"
      "snd (removeMatchingFiringAlerts
      \<lparr>alerts = [\<lparr>ID = ''2-0'', Timestamp = clock 2, Alert = sampleAlert ''firing'' ''A''\<rparr>,
                 \<lparr>ID = ''1-0'', Timestamp = clock 1, Alert = sampleAlert ''firing'' ''B''\<rparr>],
       maxSize = 100, acknowledged = fmempty\<rparr>
      [sampleAlert ''resolved'' ''A''])"]
  by (simp add: alertsMatch_labels fmupd_single_eq)

text \<open>Two stored firing entries with the labels of one resolved alert are both removed.\<close>

theorem reconciliation_one_resolved_removes_two:
  "removeMatchingFiringAlerts
      \<lparr>alerts = [\<lparr>ID = ''2-0'', Timestamp = clock 2, Alert = sampleAlert ''firing'' ''A''\<rparr>,
                 \<lparr>ID = ''1-0'', Timestamp = clock 1, Alert = sampleAlert ''firing'' ''A''\<rparr>],
       maxSize = 100, acknowledged = fmempty\<rparr>
      [sampleAlert ''resolved'' ''A'']
    = (\<lparr>alerts = [], maxSize = 100, acknowledged = fmempty\<rparr>,
       [sampleAlert ''resolved'' ''A'', sampleAlert ''resolved'' ''A''])
   \<and> run (NewAppState 100)
        [Ingest (clock 1) \<lparr>Status = ''firing'', Alerts = [sampleAlert ''firing'' ''A'']\<rparr>,
         Ingest (clock 2) \<lparr>Status = ''firing'', Alerts = [sampleAlert ''firing'' ''A'']\<rparr>]
    = Inr \<lparr>alerts = [\<lparr>ID = ''2-0'', Timestamp = clock 2, Alert = sampleAlert ''firing'' ''A''\<rparr>,
                 \<lparr>ID = ''1-0'', Timestamp = clock 1, Alert = sampleAlert ''firing'' ''A''\<rparr>],
       maxSize = 100, acknowledged = fmempty\<rparr>"
  by (simp add: eval_simps eval_id)

lemma AddWebhook_Inr_iff:
  "AddWebhook a ts p = Inr a' \<longleftrightarrow>
     0 \<le> maxSize a \<and> a' = (ingested a ts p)\<lparr>alerts := take (nat (maxSize a)) (alerts (ingested a ts p))\<rparr>"
proof (cases "int (length (alerts (ingested a ts p))) > maxSize a")
  case True
  then show ?thesis
    by (auto simp: AddWebhook_def Let_def maxSize_ingested)
next
  case False
  then have "take (nat (maxSize a)) (alerts (ingested a ts p)) = alerts (ingested a ts p)"
    by simp
  with False show ?thesis
    by (auto simp: AddWebhook_def Let_def maxSize_ingested)
qed

lemma alerts_ingested:
  "alerts (ingested a ts p) =
     rev (map (\<lambda>(j, x). \<lparr>ID = mkID (UnixNano ts) j, Timestamp = ts, Alert = x\<rparr>)
            (filter (\<lambda>(j, x). \<not> (Alert.Status x = ''resolved''
                        \<and> \<not> matchedBy x (snd (removeMatchingFiringAlerts a (Alerts p)))))
               (zip [0..<length (Alerts p)] (Alerts p))))
     @ alerts (fst (removeMatchingFiringAlerts a (Alerts p)))"
  by (simp add: ingested_eq split_beta insertLoop_eq)

section \<open>Truncation to \<^verbatim>\<open>maxSize\<close>\<close>



section \<open>Alerts without labels\<close>

lemma entryMatch_empty_labels: "Labels (Alert e) = fmempty \<Longrightarrow> entryMatch rs e = None"
  by (simp add: entryMatch_None alertsMatch_labels)

text \<open>
  Claim C10. A stored entry whose alert has no labels is kept by the reconciliation pass
  of every notification. It is still in the list that the ingestion builds, and after the
  ingestion it is in the store unless it lay beyond \<^verbatim>\<open>maxSize\<close> and was cut off.
\<close>

theorem unlabelled_entry_survives_reconciliation:
  assumes "e \<in> set (alerts a)" and "Labels (Alert e) = fmempty"
  shows "e \<in> set (alerts (fst (removeMatchingFiringAlerts a as)))
    \<and> e \<in> set (alerts (ingested a ts p))
    \<and> (\<forall>a'. AddWebhook a ts p = Inr a' \<longrightarrow>
          e \<in> set (alerts a')
          \<or> (maxSize a < int (length (alerts (ingested a ts p)))
              \<and> e \<in> set (drop (nat (maxSize a)) (alerts (ingested a ts p)))))"
proof -
  have keep: "\<And>xs. e \<in> set (alerts (fst (removeMatchingFiringAlerts a xs)))"
    using assms by (simp add: removeMatchingFiringAlerts_eq entryMatch_empty_labels)
  have ing: "e \<in> set (alerts (ingested a ts p))"
    using keep [of "Alerts p"] by (simp add: alerts_ingested)
  have "e \<in> set (alerts a')
          \<or> (maxSize a < int (length (alerts (ingested a ts p)))
              \<and> e \<in> set (drop (nat (maxSize a)) (alerts (ingested a ts p))))"
    if "AddWebhook a ts p = Inr a'" for a'
  proof -
    let ?full = "alerts (ingested a ts p)"
    from that have a': "alerts a' = take (nat (maxSize a)) ?full" and m: "0 \<le> maxSize a"
      by (auto simp: AddWebhook_Inr_iff)
    have "set ?full = set (take (nat (maxSize a)) ?full) \<union> set (drop (nat (maxSize a)) ?full)"
      by (metis append_take_drop_id set_append)
    with ing have "e \<in> set (alerts a') \<or> e \<in> set (drop (nat (maxSize a)) ?full)"
      using a' by auto
    moreover have "maxSize a < int (length ?full)" if "e \<in> set (drop (nat (maxSize a)) ?full)"
    proof (rule ccontr)
      assume "\<not> maxSize a < int (length ?full)"
      then have "drop (nat (maxSize a)) ?full = []" by simp
      with that show False by simp
    qed
    ultimately show ?thesis by blast
  qed
  with keep ing show ?thesis by blast
qed

theorem unlabelled_entry_survives_reconciliation_witness:
  "\<lparr>ID = ''1-0'', Timestamp = clock 1,
     Alert = \<lparr>Alert.Status = ''firing'', Labels = fmempty, StartsAt = 0, EndsAt = None, GeneratorURL = []\<rparr>\<rparr>
   \<in> set (alerts (ingested
        \<lparr>alerts = [\<lparr>ID = ''1-0'', Timestamp = clock 1,
            Alert = \<lparr>Alert.Status = ''firing'', Labels = fmempty, StartsAt = 0, EndsAt = None, GeneratorURL = []\<rparr>\<rparr>],
         maxSize = 100, acknowledged = fmempty\<rparr> (clock 2)
        \<lparr>Status = ''resolved'',
         Alerts = [\<lparr>Alert.Status = ''resolved'', Labels = fmempty, StartsAt = 0, EndsAt = Some 2,
                    GeneratorURL = []\<rparr>]\<rparr>))"
  using unlabelled_entry_survives_reconciliation
    [of "\<lparr>ID = ''1-0'', Timestamp = clock 1,
     Alert = \<lparr>Alert.Status = ''firing'', Labels = fmempty, StartsAt = 0, EndsAt = None, GeneratorURL = []\<rparr>\<rparr>"
     "\<lparr>alerts = [\<lparr>ID = ''1-0'', Timestamp = clock 1,
            Alert = \<lparr>Alert.Status = ''firing'', Labels = fmempty, StartsAt = 0, EndsAt = None, GeneratorURL = []\<rparr>\<rparr>],
         maxSize = 100, acknowledged = fmempty\<rparr>"
     "[]" "clock 2"
     "\<lparr>Status = ''resolved'',
         Alerts = [\<lparr>Alert.Status = ''resolved'', Labels = fmempty, StartsAt = 0, EndsAt = Some 2,
                    GeneratorURL = []\<rparr>]\<rparr>"]
  by simp

section \<open>Resolved alerts that match nothing\<close>

lemma findMatch_skip:
  "\<not> alertsMatch r f \<Longrightarrow> findMatch (xs @ r # ys) f = findMatch (xs @ ys) f"
  by (induction xs) auto

lemma entryMatch_skip:
  assumes "Alert.Status (Alert e) = ''firing'' \<longrightarrow> \<not> alertsMatch r (Alert e)"
  shows "entryMatch (xs @ r # ys) e = entryMatch (xs @ ys) e"
  using assms by (simp add: entryMatch_def findMatch_skip)

lemma map_filter_cong_set:
  "(\<And>x. x \<in> set xs \<Longrightarrow> f x = g x) \<Longrightarrow> List.map_filter f xs = List.map_filter g xs"
proof (induction xs)
  case Nil
  then show ?case by (simp add: List.map_filter_simps)
next
  case (Cons x xs)
  then have "f x = g x" and "List.map_filter f xs = List.map_filter g xs" by simp_all
  then show ?case by (simp add: List.map_filter_simps split: option.splits)
qed

lemma insertLoop_append:
  "insertLoop ts m i (xs @ ys) stored = insertLoop ts m (i + length xs) ys (insertLoop ts m i xs stored)"
  by (induction xs arbitrary: i stored) auto

lemma set_map_filter: "set (List.map_filter f xs) = {y. \<exists>x\<in>set xs. f x = Some y}"
  by (induction xs) (auto simp: List.map_filter_simps split: option.splits)

lemma matched_have_firing_entry:
  assumes "x \<in> set (snd (removeMatchingFiringAlerts a as))"
  shows "\<exists>e\<in>set (alerts a). Alert.Status (Alert e) = ''firing'' \<and> alertsMatch x (Alert e)"
proof -
  from assms obtain e where e: "e \<in> set (alerts a)"
    and m: "entryMatch (filter (\<lambda>x. Alert.Status x = ''resolved'') as) e = Some x"
    by (auto simp: removeMatchingFiringAlerts_eq set_map_filter)
  from entryMatch_first [OF m] e show ?thesis by blast
qed

lemma unmatched_not_matchedBy:
  assumes "\<forall>e\<in>set (alerts a). Alert.Status (Alert e) = ''firing'' \<longrightarrow> \<not> alertsMatch r (Alert e)"
  shows "\<not> matchedBy r (snd (removeMatchingFiringAlerts a as))"
proof
  assume "matchedBy r (snd (removeMatchingFiringAlerts a as))"
  then obtain x where x: "x \<in> set (snd (removeMatchingFiringAlerts a as))" and rx: "alertsMatch r x"
    by (auto simp: matchedBy_iff)
  from matched_have_firing_entry [OF x] obtain e where e: "e \<in> set (alerts a)"
    "Alert.Status (Alert e) = ''firing''" "alertsMatch x (Alert e)" by blast
  from rx e(3) have "alertsMatch r (Alert e)" using alertsMatch_labels by metis
  with assms e show False by blast
qed

lemma removeMatching_skip:
  assumes "\<forall>e\<in>set (alerts a). Alert.Status (Alert e) = ''firing'' \<longrightarrow> \<not> alertsMatch r (Alert e)"
  shows "removeMatchingFiringAlerts a (pre @ r # post) = removeMatchingFiringAlerts a (pre @ post)"
proof -
  let ?res = "\<lambda>x. Alert.Status x = ''resolved''"
  have em: "entryMatch (filter ?res (pre @ r # post)) e = entryMatch (filter ?res (pre @ post)) e"
    if "e \<in> set (alerts a)" for e
  proof (cases "?res r")
    case True
    with that assms show ?thesis by (simp add: entryMatch_skip)
  next
    case False
    then show ?thesis by simp
  qed
  have 1: "filter (\<lambda>e. entryMatch (filter ?res (pre @ r # post)) e = None) (alerts a)
         = filter (\<lambda>e. entryMatch (filter ?res (pre @ post)) e = None) (alerts a)"
    by (rule filter_cong [OF refl]) (simp only: em)
  have 2: "filter (\<lambda>e. entryMatch (filter ?res (pre @ r # post)) e \<noteq> None) (alerts a)
         = filter (\<lambda>e. entryMatch (filter ?res (pre @ post)) e \<noteq> None) (alerts a)"
    by (rule filter_cong [OF refl]) (simp only: em)
  have 3: "List.map_filter (entryMatch (filter ?res (pre @ r # post))) (alerts a)
         = List.map_filter (entryMatch (filter ?res (pre @ post))) (alerts a)"
    by (rule map_filter_cong_set) (simp only: em)
  show ?thesis
    unfolding removeMatchingFiringAlerts_eq [of a "pre @ r # post"]
      removeMatchingFiringAlerts_eq [of a "pre @ post"] 1 2 3 ..
qed

text \<open>
  Claim C4. A resolved alert that matches no stored firing entry changes nothing: the
  reconciliation pass gives the result it gives without it, its turn in the insertion loop
  adds no entry, and so the notification leaves what its other alerts, at their own
  positions, leave. Alone in a notification it leaves a store within its bound exactly as
  it was, and the empty store empty.
\<close>

theorem unmatched_resolved_alert_is_ignored:
  assumes "Alert.Status r = ''resolved''"
    and "\<forall>e\<in>set (alerts a). Alert.Status (Alert e) = ''firing'' \<longrightarrow> \<not> alertsMatch r (Alert e)"
  shows "removeMatchingFiringAlerts a (pre @ r # post) = removeMatchingFiringAlerts a (pre @ post)
    \<and> \<not> matchedBy r (snd (removeMatchingFiringAlerts a (pre @ r # post)))
    \<and> ingested a ts \<lparr>Status = st, Alerts = pre @ r # post\<rparr> =
        (case removeMatchingFiringAlerts a (pre @ post) of
           (a1, m) \<Rightarrow> a1\<lparr>alerts := insertLoop ts m (Suc (length pre)) post
                                      (insertLoop ts m 0 pre (alerts a1))\<rparr>)
    \<and> (int (length (alerts a)) \<le> maxSize a \<longrightarrow>
          AddWebhook a ts \<lparr>Status = st, Alerts = [r]\<rparr> = Inr a)
    \<and> (0 \<le> n \<longrightarrow> AddWebhook (NewAppState n) ts \<lparr>Status = st, Alerts = [r]\<rparr> = Inr (NewAppState n))"
proof -
  have 1: "removeMatchingFiringAlerts a (pre @ r # post) = removeMatchingFiringAlerts a (pre @ post)"
    for pre post using assms(2) by (rule removeMatching_skip)
  have 2: "\<not> matchedBy r (snd (removeMatchingFiringAlerts a xs))" for xs
    using assms(2) by (rule unmatched_not_matchedBy)
  have 3: "ingested a ts \<lparr>Status = st, Alerts = pre @ r # post\<rparr> =
        (case removeMatchingFiringAlerts a (pre @ post) of
           (a1, m) \<Rightarrow> a1\<lparr>alerts := insertLoop ts m (Suc (length pre)) post
                                      (insertLoop ts m 0 pre (alerts a1))\<rparr>)"
    using assms(1) 2 [of "pre @ post"]
    by (simp add: ingested_eq 1 insertLoop_append split_beta)
  have lone: "ingested s ts \<lparr>Status = st, Alerts = [r]\<rparr> = s"
    if "\<forall>e\<in>set (alerts s). Alert.Status (Alert e) = ''firing'' \<longrightarrow> \<not> alertsMatch r (Alert e)" for s
  proof -
    have "removeMatchingFiringAlerts s ([] @ r # []) = removeMatchingFiringAlerts s ([] @ [])"
      using that by (rule removeMatching_skip)
    then have "removeMatchingFiringAlerts s [r] = (s, [])"
      by (simp add: removeMatchingFiringAlerts_def)
    then show ?thesis using assms(1) by (simp add: ingested_eq)
  qed
  have 4: "int (length (alerts a)) \<le> maxSize a \<longrightarrow>
          AddWebhook a ts \<lparr>Status = st, Alerts = [r]\<rparr> = Inr a"
    using lone [OF assms(2)] by (simp add: AddWebhook_def)
  have 5: "0 \<le> n \<longrightarrow> AddWebhook (NewAppState n) ts \<lparr>Status = st, Alerts = [r]\<rparr> = Inr (NewAppState n)"
  proof -
    have "ingested (NewAppState n) ts \<lparr>Status = st, Alerts = [r]\<rparr> = NewAppState n"
      by (rule lone) (simp add: NewAppState_def)
    then show ?thesis by (simp add: AddWebhook_def) (simp add: NewAppState_def)
  qed
  from 1 2 3 4 5 show ?thesis by blast
qed

theorem unmatched_resolved_alert_is_ignored_witness:
  "AddWebhook
     \<lparr>alerts = [\<lparr>ID = ''1-0'', Timestamp = clock 1, Alert = sampleAlert ''firing'' ''A''\<rparr>],
      maxSize = 100, acknowledged = fmupd ''1-0'' True fmempty\<rparr>
     (clock 2) \<lparr>Status = ''resolved'', Alerts = [sampleAlert ''resolved'' ''B'']\<rparr>
   = Inr \<lparr>alerts = [\<lparr>ID = ''1-0'', Timestamp = clock 1, Alert = sampleAlert ''firing'' ''A''\<rparr>],
           maxSize = 100, acknowledged = fmupd ''1-0'' True fmempty\<rparr>"
  using unmatched_resolved_alert_is_ignored
    [of "sampleAlert ''resolved'' ''B''"
        "\<lparr>alerts = [\<lparr>ID = ''1-0'', Timestamp = clock 1, Alert = sampleAlert ''firing'' ''A''\<rparr>],
          maxSize = 100, acknowledged = fmupd ''1-0'' True fmempty\<rparr>"
        "[]" "[]" "clock 2" "''resolved''" 100]
  by (simp add: alertsMatch_labels fmupd_single_eq)

section \<open>Clearing acknowledged and resolved entries\<close>

lemma clearLoop_acc:
  "clearLoop es fl ack n = (case clearLoop es [] ack 0 of (k, ack', c) \<Rightarrow> (fl @ k, ack', n + c))"
proof (induction es arbitrary: fl ack n)
  case Nil
  then show ?case by simp
next
  case (Cons e es)
  show ?case
  proof (cases "firingUnacknowledged ack e")
    case True
    then show ?thesis
      using Cons.IH [of "fl @ [e]" ack n] Cons.IH [of "[e]" ack 0]
      by (simp add: split_beta)
  next
    case False
    then show ?thesis
      using Cons.IH [of fl "fmdrop (ID e) ack" "n + 1"] Cons.IH [of "[]" "fmdrop (ID e) ack" 1]
      by (auto simp: split_beta)
  qed
qed

lemma clearLoop_Cons:
  "clearLoop (e # es) [] ack 0 =
     (if firingUnacknowledged ack e
      then (case clearLoop es [] ack 0 of (k, ack', c) \<Rightarrow> (e # k, ack', c))
      else (case clearLoop es [] (fmdrop (ID e) ack) 0 of (k, ack', c) \<Rightarrow> (k, ack', c + 1)))"
  using clearLoop_acc [of es "[e]" ack 0] clearLoop_acc [of es "[]" "fmdrop (ID e) ack" 1]
  by (simp add: split_beta)

lemma isAck_fmdrop: "isAck (fmdrop k ack) x = (x \<noteq> k \<and> isAck ack x)"
  by (simp add: isAck_def)

lemma firingUnacknowledged_fmdrop:
  "ID x \<noteq> k \<Longrightarrow> firingUnacknowledged (fmdrop k ack) x = firingUnacknowledged ack x"
  by (simp add: firingUnacknowledged_def isAck_fmdrop)


lemma clear_subseq:
  "clearLoop es [] ack 0 = (k, ack', c) \<Longrightarrow>
     subseq k es \<and> c = int (length es) - int (length k)"
proof (induction es arbitrary: ack k ack' c)
  case Nil
  then show ?case by simp
next
  case (Cons e es)
  from Cons.prems [unfolded clearLoop_Cons] Cons.IH show ?case
    by (fastforce split: if_splits prod.splits)
qed

lemma clear_ack_shrinks:
  "clearLoop es [] ack 0 = (k, ack', c) \<Longrightarrow>
     fmdom ack' |\<subseteq>| fmdom ack \<and> (\<forall>x. isAck ack' x \<longrightarrow> isAck ack x)"
proof (induction es arbitrary: ack k ack' c)
  case Nil
  then show ?case by simp
next
  case (Cons e es)
  show ?case
  proof (cases "firingUnacknowledged ack e")
    case True
    with Cons.prems [unfolded clearLoop_Cons] obtain k0 where "clearLoop es [] ack 0 = (k0, ack', c)"
      by (auto split: prod.splits)
    then show ?thesis by (rule Cons.IH)
  next
    case False
    with Cons.prems [unfolded clearLoop_Cons] obtain c0 where "clearLoop es [] (fmdrop (ID e) ack) 0 = (k, ack', c0)"
      by (auto split: prod.splits)
    from Cons.IH [OF this] show ?thesis by (auto simp: isAck_fmdrop)
  qed
qed

lemma clear_keeps_unacked:
  "clearLoop es [] ack 0 = (k, ack', c) \<Longrightarrow> x \<in> set es \<Longrightarrow>
     firingUnacknowledged ack x \<Longrightarrow> x \<in> set k"
proof (induction es arbitrary: ack k ack' c)
  case Nil
  then show ?case by simp
next
  case (Cons e es)
  show ?case
  proof (cases "firingUnacknowledged ack e")
    case True
    with Cons.prems(1) [unfolded clearLoop_Cons] obtain k0 where k0: "clearLoop es [] ack 0 = (k0, ack', c)" "k = e # k0"
      by (auto split: prod.splits)
    show ?thesis
    proof (cases "x = e")
      case True
      with k0 show ?thesis by simp
    next
      case False
      with Cons.prems have "x \<in> set es" by simp
      from Cons.IH [OF k0(1) this Cons.prems(3)] k0 show ?thesis by simp
    qed
  next
    case False
    with Cons.prems(1) [unfolded clearLoop_Cons] obtain c0 where c0: "clearLoop es [] (fmdrop (ID e) ack) 0 = (k, ack', c0)"
      by (auto split: prod.splits)
    from False Cons.prems have xe: "x \<in> set es" by auto
    from Cons.prems(3) have "firingUnacknowledged (fmdrop (ID e) ack) x"
      by (simp add: firingUnacknowledged_def isAck_fmdrop)
    from Cons.IH [OF c0 xe this] show ?thesis .
  qed
qed


lemma clear_removed_ids:
  "clearLoop es [] ack 0 = (k, ack', c) \<Longrightarrow> x \<in> set es \<Longrightarrow>
     \<not> firingUnacknowledged ack x \<Longrightarrow> ID x |\<notin>| fmdom ack'"
proof (induction es arbitrary: ack k ack' c)
  case Nil
  then show ?case by simp
next
  case (Cons e es)
  show ?case
  proof (cases "firingUnacknowledged ack e")
    case True
    with Cons.prems(1) [unfolded clearLoop_Cons] obtain k0 where k0: "clearLoop es [] ack 0 = (k0, ack', c)"
      by (auto split: prod.splits)
    from True Cons.prems have "x \<in> set es" by auto
    from Cons.IH [OF k0 this Cons.prems(3)] show ?thesis .
  next
    case False
    with Cons.prems(1) [unfolded clearLoop_Cons] obtain c0 where c0: "clearLoop es [] (fmdrop (ID e) ack) 0 = (k, ack', c0)"
      by (auto split: prod.splits)
    from clear_ack_shrinks [OF c0] have sub: "fmdom ack' |\<subseteq>| fmdom ack - {|ID e|}" by simp
    show ?thesis
    proof (cases "ID x = ID e")
      case True
      with sub show ?thesis by auto
    next
      case False
      with Cons.prems have xe: "x \<in> set es" by auto
      from False Cons.prems(3)
      have "\<not> firingUnacknowledged (fmdrop (ID e) ack) x"
        by (simp add: firingUnacknowledged_fmdrop)
      from Cons.IH [OF c0 xe this] show ?thesis .
    qed
  qed
qed






section \<open>The display order\<close>

lemma mset_insertBy: "mset (insertBy lt x ys) = add_mset x (mset ys)"
  by (induction ys) auto

lemma mset_sortSlice: "mset (sortSlice lt xs) = mset xs"
  by (induction xs) (auto simp: mset_insertBy)

lemma set_insertBy: "set (insertBy lt x ys) = insert x (set ys)"
  by (induction ys) auto

lemma sorted_insertBy:
  assumes asym: "\<And>x y. lt x y \<Longrightarrow> \<not> lt y x"
    and negtrans: "\<And>x y z. lt x z \<Longrightarrow> lt x y \<or> lt y z"
    and "sorted_wrt (\<lambda>u v. \<not> lt v u) ys"
  shows "sorted_wrt (\<lambda>u v. \<not> lt v u) (insertBy lt x ys)"
  using assms(3)
proof (induction ys)
  case Nil
  then show ?case by simp
next
  case (Cons y ys)
  show ?case
  proof (cases "lt y x")
    case True
    with Cons asym show ?thesis by (auto simp: set_insertBy)
  next
    case False
    have "\<not> lt z x" if "z \<in> set ys" for z
    proof
      assume "lt z x"
      with negtrans have "lt z y \<or> lt y x" by blast
      with False Cons.prems that show False by auto
    qed
    with False Cons.prems show ?thesis by auto
  qed
qed

lemma sorted_sortSlice:
  assumes "\<And>x y. lt x y \<Longrightarrow> \<not> lt y x" and "\<And>x y z. lt x z \<Longrightarrow> lt x y \<or> lt y z"
  shows "sorted_wrt (\<lambda>u v. \<not> lt v u) (sortSlice lt xs)"
proof (induction xs)
  case Nil
  then show ?case by simp
next
  case (Cons x xs)
  from sorted_insertBy [of lt "sortSlice lt xs" x, OF assms Cons.IH]
  show ?case by simp
qed

lemma getAlertPriority_cases:
  "getAlertPriority status ack =
     (if status = ''firing'' then (if ack then 1 else 0) else 2)"
  by (simp add: getAlertPriority_def)

lemma alertLess_iff:
  "alertLess a x y \<longleftrightarrow>
     getAlertPriority (Alert.Status (Alert x)) (IsAcknowledged a (ID x))
       < getAlertPriority (Alert.Status (Alert y)) (IsAcknowledged a (ID y))
     \<or> (getAlertPriority (Alert.Status (Alert x)) (IsAcknowledged a (ID x))
         = getAlertPriority (Alert.Status (Alert y)) (IsAcknowledged a (ID y))
        \<and> After (Timestamp x) (Timestamp y))"
  by (auto simp: alertLess_def Let_def IsAcknowledged_def)

lemma alertLess_asym: "alertLess a x y \<Longrightarrow> \<not> alertLess a y x"
  by (auto simp: alertLess_iff After_def)

lemma alertLess_negtrans: "alertLess a x z \<Longrightarrow> alertLess a x y \<or> alertLess a y z"
  unfolding alertLess_iff After_def by linarith

lemma no_inversion_order:
  assumes "sorted_wrt (\<lambda>u v. \<not> alertLess a v u) res" and "i < j" and "j < length res"
  shows "getAlertPriority (Alert.Status (Alert (res ! i))) (IsAcknowledged a (ID (res ! i)))
           \<le> getAlertPriority (Alert.Status (Alert (res ! j))) (IsAcknowledged a (ID (res ! j)))
       \<and> (getAlertPriority (Alert.Status (Alert (res ! i))) (IsAcknowledged a (ID (res ! i)))
           = getAlertPriority (Alert.Status (Alert (res ! j))) (IsAcknowledged a (ID (res ! j)))
          \<longrightarrow> \<not> After (Timestamp (res ! j)) (Timestamp (res ! i)))"
proof -
  from assms have "\<not> alertLess a (res ! j) (res ! i)"
    by (simp add: sorted_wrt_iff_nth_less)
  then show ?thesis unfolding alertLess_iff by auto
qed


text \<open>
  Claim C9. \<^verbatim>\<open>GetAlerts\<close> returns the stored entries, ordered by priority band,
  unacknowledged firing (0) before acknowledged firing (1) before resolved (2, with every
  other status that is not firing), and inside a band no entry comes after one that is
  older than it. The order holds for every arrangement of the entries in which no entry is
  \<^verbatim>\<open>less\<close> than one before it, which is what the library sort returns.
\<close>

theorem GetAlerts_priority_then_newest:
  "mset (GetAlerts a) = mset (alerts a)
   \<and> (\<forall>i j. i < j \<and> j < length (GetAlerts a) \<longrightarrow>
         getAlertPriority (Alert.Status (Alert (GetAlerts a ! i))) (IsAcknowledged a (ID (GetAlerts a ! i)))
           \<le> getAlertPriority (Alert.Status (Alert (GetAlerts a ! j))) (IsAcknowledged a (ID (GetAlerts a ! j)))
         \<and> (getAlertPriority (Alert.Status (Alert (GetAlerts a ! i))) (IsAcknowledged a (ID (GetAlerts a ! i)))
             = getAlertPriority (Alert.Status (Alert (GetAlerts a ! j))) (IsAcknowledged a (ID (GetAlerts a ! j)))
            \<longrightarrow> \<not> After (Timestamp (GetAlerts a ! j)) (Timestamp (GetAlerts a ! i))))
   \<and> (\<forall>status ack. getAlertPriority status ack =
         (if status = ''firing'' then (if ack then 1 else 0) else 2))
   \<and> (\<forall>res. mset res = mset (alerts a) \<and> sorted_wrt (\<lambda>u v. \<not> alertLess a v u) res \<longrightarrow>
        (\<forall>i j. i < j \<and> j < length res \<longrightarrow>
           getAlertPriority (Alert.Status (Alert (res ! i))) (IsAcknowledged a (ID (res ! i)))
             \<le> getAlertPriority (Alert.Status (Alert (res ! j))) (IsAcknowledged a (ID (res ! j)))
           \<and> (getAlertPriority (Alert.Status (Alert (res ! i))) (IsAcknowledged a (ID (res ! i)))
               = getAlertPriority (Alert.Status (Alert (res ! j))) (IsAcknowledged a (ID (res ! j)))
              \<longrightarrow> \<not> After (Timestamp (res ! j)) (Timestamp (res ! i)))))"
proof -
  have s: "sorted_wrt (\<lambda>u v. \<not> alertLess a v u) (GetAlerts a)"
    unfolding GetAlerts_def
    by (rule sorted_sortSlice) (blast dest: alertLess_asym alertLess_negtrans)+
  have 1: "mset (GetAlerts a) = mset (alerts a)"
    by (simp add: GetAlerts_def mset_sortSlice)
  have 2: "\<forall>i j. i < j \<and> j < length (GetAlerts a) \<longrightarrow>
         getAlertPriority (Alert.Status (Alert (GetAlerts a ! i))) (IsAcknowledged a (ID (GetAlerts a ! i)))
           \<le> getAlertPriority (Alert.Status (Alert (GetAlerts a ! j))) (IsAcknowledged a (ID (GetAlerts a ! j)))
         \<and> (getAlertPriority (Alert.Status (Alert (GetAlerts a ! i))) (IsAcknowledged a (ID (GetAlerts a ! i)))
             = getAlertPriority (Alert.Status (Alert (GetAlerts a ! j))) (IsAcknowledged a (ID (GetAlerts a ! j)))
            \<longrightarrow> \<not> After (Timestamp (GetAlerts a ! j)) (Timestamp (GetAlerts a ! i)))"
    using no_inversion_order [OF s] by blast
  have 3: "\<forall>status ack. getAlertPriority status ack =
         (if status = ''firing'' then (if ack then 1 else 0) else 2)"
    by (simp add: getAlertPriority_cases)
  have 4: "\<forall>res. mset res = mset (alerts a) \<and> sorted_wrt (\<lambda>u v. \<not> alertLess a v u) res \<longrightarrow>
        (\<forall>i j. i < j \<and> j < length res \<longrightarrow>
           getAlertPriority (Alert.Status (Alert (res ! i))) (IsAcknowledged a (ID (res ! i)))
             \<le> getAlertPriority (Alert.Status (Alert (res ! j))) (IsAcknowledged a (ID (res ! j)))
           \<and> (getAlertPriority (Alert.Status (Alert (res ! i))) (IsAcknowledged a (ID (res ! i)))
               = getAlertPriority (Alert.Status (Alert (res ! j))) (IsAcknowledged a (ID (res ! j)))
              \<longrightarrow> \<not> After (Timestamp (res ! j)) (Timestamp (res ! i))))"
    using no_inversion_order by blast
  from 1 2 3 4 show ?thesis by blast
qed

theorem GetAlerts_priority_then_newest_witness:
  "GetAlerts
     \<lparr>alerts = [\<lparr>ID = ''4-0'', Timestamp = clock 4, Alert = sampleAlert ''resolved'' ''C''\<rparr>,
                \<lparr>ID = ''3-0'', Timestamp = clock 3, Alert = sampleAlert ''firing'' ''B''\<rparr>,
                \<lparr>ID = ''2-0'', Timestamp = clock 2, Alert = sampleAlert ''firing'' ''A''\<rparr>,
                \<lparr>ID = ''1-0'', Timestamp = clock 1, Alert = sampleAlert ''firing'' ''D''\<rparr>],
      maxSize = 100, acknowledged = fmupd ''3-0'' True fmempty\<rparr>
   = [\<lparr>ID = ''2-0'', Timestamp = clock 2, Alert = sampleAlert ''firing'' ''A''\<rparr>,
      \<lparr>ID = ''1-0'', Timestamp = clock 1, Alert = sampleAlert ''firing'' ''D''\<rparr>,
      \<lparr>ID = ''3-0'', Timestamp = clock 3, Alert = sampleAlert ''firing'' ''B''\<rparr>,
      \<lparr>ID = ''4-0'', Timestamp = clock 4, Alert = sampleAlert ''resolved'' ''C''\<rparr>]
   \<and> (0::nat) < 1 \<and> (1::nat) < length [\<lparr>ID = ''2-0'', Timestamp = clock 2, Alert = sampleAlert ''firing'' ''A''\<rparr>,
      \<lparr>ID = ''1-0'', Timestamp = clock 1, Alert = sampleAlert ''firing'' ''D''\<rparr>,
      \<lparr>ID = ''3-0'', Timestamp = clock 3, Alert = sampleAlert ''firing'' ''B''\<rparr>,
      \<lparr>ID = ''4-0'', Timestamp = clock 4, Alert = sampleAlert ''resolved'' ''C''\<rparr>]
   \<and> \<not> After (clock 1) (clock 2)"
proof -
  let ?a = "\<lparr>alerts = [\<lparr>ID = ''4-0'', Timestamp = clock 4, Alert = sampleAlert ''resolved'' ''C''\<rparr>,
                \<lparr>ID = ''3-0'', Timestamp = clock 3, Alert = sampleAlert ''firing'' ''B''\<rparr>,
                \<lparr>ID = ''2-0'', Timestamp = clock 2, Alert = sampleAlert ''firing'' ''A''\<rparr>,
                \<lparr>ID = ''1-0'', Timestamp = clock 1, Alert = sampleAlert ''firing'' ''D''\<rparr>],
      maxSize = 100, acknowledged = fmupd ''3-0'' True fmempty\<rparr>"
  have ev: "GetAlerts ?a
   = [\<lparr>ID = ''2-0'', Timestamp = clock 2, Alert = sampleAlert ''firing'' ''A''\<rparr>,
      \<lparr>ID = ''1-0'', Timestamp = clock 1, Alert = sampleAlert ''firing'' ''D''\<rparr>,
      \<lparr>ID = ''3-0'', Timestamp = clock 3, Alert = sampleAlert ''firing'' ''B''\<rparr>,
      \<lparr>ID = ''4-0'', Timestamp = clock 4, Alert = sampleAlert ''resolved'' ''C''\<rparr>]"
    by (simp add: GetAlerts_def alertLess_def getAlertPriority_def isAck_def After_def)
  have p: "getAlertPriority (Alert.Status (Alert (GetAlerts ?a ! 0))) (IsAcknowledged ?a (ID (GetAlerts ?a ! 0)))
      = getAlertPriority (Alert.Status (Alert (GetAlerts ?a ! 1))) (IsAcknowledged ?a (ID (GetAlerts ?a ! 1)))"
    by (simp add: ev getAlertPriority_def IsAcknowledged_def isAck_def)
  have h: "(0::nat) < 1 \<and> 1 < length (GetAlerts ?a)" by (simp add: ev)
  from GetAlerts_priority_then_newest [of ?a] h p
  have "\<not> After (Timestamp (GetAlerts ?a ! 1)) (Timestamp (GetAlerts ?a ! 0))" by blast
  with ev h show ?thesis by simp
qed

section \<open>Identifiers are injective\<close>

declare showNat.simps [simp del]

lemma digitChar_not_dash: "digitChar d \<noteq> CHR ''-''" "CHR ''-'' \<noteq> digitChar d"
  by (simp_all add: digitChar_def)

lemma digitChar_inj: "d < 10 \<Longrightarrow> d' < 10 \<Longrightarrow> digitChar d = digitChar d' \<Longrightarrow> d = d'"
  by (simp add: digitChar_def split: if_splits) arith

lemma showNat_not_Nil: "showNat n \<noteq> []"
  by (subst showNat.simps) simp

lemma dash_notin_showNat: "CHR ''-'' \<notin> set (showNat n)"
proof (induction n rule: showNat.induct)
  case (1 n)
  then show ?case
    by (subst showNat.simps) (simp add: digitChar_not_dash)
qed

lemma showNat_inj: "showNat n = showNat m \<Longrightarrow> n = m"
proof (induction n arbitrary: m rule: showNat.induct)
  case (1 n)
  show ?case
  proof (cases "n < 10")
    case True
    note n = this
    show ?thesis
    proof (cases "m < 10")
      case True
      with n "1.prems" show ?thesis
        by (simp add: showNat.simps [of n] showNat.simps [of m] digitChar_inj)
    next
      case False
      with n "1.prems" showNat_not_Nil [of "m div 10"] show ?thesis
        by (simp add: showNat.simps [of n] showNat.simps [of m])
    qed
  next
    case False
    note n = this
    show ?thesis
    proof (cases "m < 10")
      case True
      with n "1.prems" showNat_not_Nil [of "n div 10"] show ?thesis
        by (simp add: showNat.simps [of n] showNat.simps [of m])
    next
      case False
      with n "1.prems" have e: "showNat (n div 10) = showNat (m div 10)"
        and d: "digitChar (n mod 10) = digitChar (m mod 10)"
        by (simp_all add: showNat.simps [of n] showNat.simps [of m])
      from "1.IH" [OF n e] have "n div 10 = m div 10" .
      moreover from d have "n mod 10 = m mod 10" by (rule digitChar_inj [rotated 2]) simp_all
      ultimately show ?thesis by (metis div_mult_mod_eq)
    qed
  qed
qed

lemma showInt_inj: "showInt i = showInt j \<Longrightarrow> i = j"
proof -
  assume a: "showInt i = showInt j"
  have nd: "CHR ''-'' # xs \<noteq> showNat k" for xs k
    using dash_notin_showNat [of k] by (metis list.set_intros(1))
  show "i = j"
  proof (cases "i < 0")
    case True
    note i = this
    show ?thesis
    proof (cases "j < 0")
      case True
      with i a have "nat (- i) = nat (- j)" by (simp add: showInt_def showNat_inj)
      with i True show ?thesis by simp
    next
      case False
      with i a nd show ?thesis by (simp add: showInt_def)
    qed
  next
    case False
    note i = this
    show ?thesis
    proof (cases "j < 0")
      case True
      with i a nd [of "showNat (nat (- j))" "nat i"] show ?thesis by (simp add: showInt_def)
    next
      case False
      with i a have "nat i = nat j" by (simp add: showInt_def showNat_inj)
      with i False show ?thesis by simp
    qed
  qed
qed

lemma split_at_last:
  "c \<notin> set y \<Longrightarrow> c \<notin> set y' \<Longrightarrow> x @ c # y = x' @ c # y' \<Longrightarrow> x = x' \<and> y = y'"
proof (induction x arbitrary: x')
  case Nil
  then show ?case by (cases x') auto
next
  case (Cons a x)
  show ?case
  proof (cases x')
    case Nil
    with Cons.prems show ?thesis by auto
  next
    case (Cons b x'')
    with Cons.prems Cons.IH [of x''] show ?thesis by auto
  qed
qed

lemma mkID_inj: "mkID b i = mkID b' i' \<longleftrightarrow> b = b' \<and> i = i'"
proof
  assume "mkID b i = mkID b' i'"
  then have "showInt b @ CHR ''-'' # showNat i = showInt b' @ CHR ''-'' # showNat i'"
    by (simp add: mkID_def)
  from split_at_last [OF dash_notin_showNat dash_notin_showNat this]
  show "b = b' \<and> i = i'" by (auto dest: showInt_inj showNat_inj)
qed simp


text \<open>The invariant behind unique ids: stored ids are pairwise distinct and each was made
  from a clock reading in \<open>T\<close>.\<close>

lemma subseq_set_mono: "subseq xs ys \<Longrightarrow> set xs \<subseteq> set ys"
  by (auto dest: list_emb_set)

lemma subseq_distinct_ids:
  assumes "subseq xs ys" and "distinct (map ID ys)"
  shows "distinct (map ID xs)"
proof -
  from assms(1) have "subseq (map ID xs) (map ID ys)" by (rule subseq_map)
  then have "map ID xs \<in> set (subseqs (map ID ys))" by simp
  from subseqs_distinctD [OF this assms(2)] show ?thesis .
qed

lemma new_entries_ids:
  "map ID (map (\<lambda>(j, x). \<lparr>ID = mkID b j, Timestamp = ts, Alert = x\<rparr>) (filter P (zip [i..<i + length as] as)))
     = map (mkID b) (map fst (filter P (zip [i..<i + length as] as)))"
  by (simp add: split_beta)

lemma distinct_fst_filter_zip: "distinct (map fst (filter P (zip [i..<i + length as] as)))"
proof -
  have "distinct (map fst (zip [i..<i + length as] as))" by simp
  then show ?thesis by (rule distinct_map_filter)
qed

lemma ingested_ids:
  assumes d: "distinct (map ID (alerts a))"
    and T: "\<forall>e\<in>set (alerts a). \<exists>t\<in>T. \<exists>i. ID e = mkID t i"
    and new: "UnixNano ts \<notin> T"
  shows "distinct (map ID (alerts (ingested a ts p)))"
    and "\<forall>e\<in>set (alerts (ingested a ts p)). \<exists>t\<in>insert (UnixNano ts) T. \<exists>i. ID e = mkID t i"
proof -
  let ?kept = "alerts (fst (removeMatchingFiringAlerts a (Alerts p)))"
  let ?P = "\<lambda>(j, x). \<not> (Alert.Status x = ''resolved''
                        \<and> \<not> matchedBy x (snd (removeMatchingFiringAlerts a (Alerts p))))"
  let ?idx = "map fst (filter ?P (zip [0..<0 + length (Alerts p)] (Alerts p)))"
  have ids: "map ID (alerts (ingested a ts p)) = rev (map (mkID (UnixNano ts)) ?idx) @ map ID ?kept"
    using new_entries_ids [of "UnixNano ts" ts ?P 0 "Alerts p"]
    by (simp add: alerts_ingested rev_map)
  have kept: "?kept = filter (\<lambda>e. entryMatch (filter (\<lambda>x. Alert.Status x = ''resolved'') (Alerts p)) e = None) (alerts a)"
    by (simp add: removeMatchingFiringAlerts_eq)
  have dk: "distinct (map ID ?kept)" unfolding kept using d by (rule distinct_map_filter)
  have sk: "set ?kept \<subseteq> set (alerts a)" unfolding kept by auto
  have "distinct ?idx" by (rule distinct_fst_filter_zip)
  moreover have "inj_on (mkID (UnixNano ts)) (set ?idx)" by (simp add: inj_on_def mkID_inj)
  ultimately have dn: "distinct (map (mkID (UnixNano ts)) ?idx)"
    by (simp only: distinct_map simp_thms)
  have disj: "set (map (mkID (UnixNano ts)) ?idx) \<inter> set (map ID ?kept) = {}"
  proof (rule ccontr)
    assume "set (map (mkID (UnixNano ts)) ?idx) \<inter> set (map ID ?kept) \<noteq> {}"
    then obtain k where k: "k \<in> set (map (mkID (UnixNano ts)) ?idx)" "k \<in> set (map ID ?kept)"
      by blast
    from k(1) obtain j where j: "k = mkID (UnixNano ts) j" by auto
    from k(2) obtain e where e: "e \<in> set ?kept" "k = ID e" by auto
    from e sk T obtain t i where "t \<in> T" "ID e = mkID t i" by blast
    with e j have "t \<in> T" "mkID t i = mkID (UnixNano ts) j" by simp_all
    with new show False by (simp add: mkID_inj)
  qed
  show "distinct (map ID (alerts (ingested a ts p)))"
    unfolding ids using dk dn disj by simp
  show "\<forall>e\<in>set (alerts (ingested a ts p)). \<exists>t\<in>insert (UnixNano ts) T. \<exists>i. ID e = mkID t i"
  proof
    fix e assume "e \<in> set (alerts (ingested a ts p))"
    then have "ID e \<in> set (map ID (alerts (ingested a ts p)))" by simp
    then have "ID e \<in> set (map (mkID (UnixNano ts)) ?idx) \<or> ID e \<in> set (map ID ?kept)"
      unfolding ids by simp
    then show "\<exists>t\<in>insert (UnixNano ts) T. \<exists>i. ID e = mkID t i"
    proof
      assume "ID e \<in> set (map (mkID (UnixNano ts)) ?idx)"
      then show ?thesis by auto
    next
      assume "ID e \<in> set (map ID ?kept)"
      then obtain e' where "e' \<in> set ?kept" "ID e' = ID e" by auto
      with sk T show ?thesis by (metis insertCI subsetD)
    qed
  qed
qed

lemma step_ids:
  assumes "distinct (map ID (alerts a))"
    and "\<forall>e\<in>set (alerts a). \<exists>t\<in>T. \<exists>i. ID e = mkID t i"
    and "set (ingestTimes [x]) \<inter> T = {}"
    and "step a x = Inr a'"
  shows "distinct (map ID (alerts a'))
    \<and> (\<forall>e\<in>set (alerts a'). \<exists>t\<in>T \<union> set (ingestTimes [x]). \<exists>i. ID e = mkID t i)"
proof (cases x)
  case (Ingest ts p)
  with assms(3) have new: "UnixNano ts \<notin> T" by simp
  from Ingest assms(4) have a': "alerts a' = take (nat (maxSize a)) (alerts (ingested a ts p))"
    by (simp add: AddWebhook_Inr_iff)
  have "distinct (map ID (alerts a'))"
    unfolding a' take_map [symmetric] using ingested_ids(1) [OF assms(1,2) new] by simp
  moreover have "set (alerts a') \<subseteq> set (alerts (ingested a ts p))"
    unfolding a' by (rule set_take_subset)
  ultimately show ?thesis
    using ingested_ids(2) [OF assms(1,2) new, of p] Ingest by auto
next
  case (Ack k)
  with assms show ?thesis by (auto simp: Acknowledge_def)
next
  case Clear
  obtain s c where sc: "ClearAcknowledgedAndResolved a = (s, c)" by (cases "ClearAcknowledgedAndResolved a")
  then have cl: "clearLoop (alerts a) [] (acknowledged a) 0 = (alerts s, acknowledged s, c)"
    by (auto simp: ClearAcknowledgedAndResolved_def split: prod.splits)
  from clear_subseq [OF cl] have sub: "subseq (alerts s) (alerts a)" by simp
  from Clear assms(4) sc have "a' = s" by simp
  with sub assms(1,2) subseq_set_mono [OF sub] Clear show ?thesis
    by (auto intro: subseq_distinct_ids)
qed

lemma ingestTimes_Cons: "ingestTimes (x # xs) = ingestTimes [x] @ ingestTimes xs"
  by (cases x) simp_all

lemma run_ids:
  "distinct (map ID (alerts a)) \<Longrightarrow>
   \<forall>e\<in>set (alerts a). \<exists>t\<in>T. \<exists>i. ID e = mkID t i \<Longrightarrow>
   distinct (ingestTimes ops) \<Longrightarrow> set (ingestTimes ops) \<inter> T = {} \<Longrightarrow>
   run a ops = Inr a' \<Longrightarrow>
   distinct (map ID (alerts a'))"
proof (induction ops arbitrary: a T)
  case Nil
  then show ?case by simp
next
  case (Cons x xs)
  from Cons.prems(5) obtain a1 where s: "step a x = Inr a1" and r: "run a1 xs = Inr a'"
    by (auto split: sum.splits)
  from Cons.prems(3,4) have d1: "distinct (ingestTimes xs)"
    and x: "set (ingestTimes [x]) \<inter> T = {}"
    and d2: "set (ingestTimes xs) \<inter> (T \<union> set (ingestTimes [x])) = {}"
    unfolding ingestTimes_Cons [of x xs] by auto
  from step_ids [OF Cons.prems(1,2) x s]
  have "distinct (map ID (alerts a1))"
    and "\<forall>e\<in>set (alerts a1). \<exists>t\<in>T \<union> set (ingestTimes [x]). \<exists>i. ID e = mkID t i"
    by simp_all
  from Cons.IH [OF this d1 d2 r] show ?case .
qed

text \<open>
  Claim C7, as amended. From the empty store, after any sequence of ingestions,
  acknowledgements and clearings in which the clock readings (\<^verbatim>\<open>UnixNano\<close>) of the
  ingestions are pairwise distinct, the ids of the stored entries are pairwise distinct.
\<close>

theorem ids_distinct_when_clock_readings_distinct:
  assumes "distinct (ingestTimes ops)" and "run (NewAppState n) ops = Inr a"
  shows "distinct (map ID (alerts a))"
proof -
  have "distinct (map ID (alerts (NewAppState n)))"
    and "\<forall>e\<in>set (alerts (NewAppState n)). \<exists>t\<in>{}. \<exists>i. ID e = mkID t i"
    by (simp_all add: NewAppState_def)
  from run_ids [OF this assms(1) _ assms(2)] show ?thesis by simp
qed

theorem ids_distinct_when_clock_readings_distinct_witness:
  "distinct (map ID
     [\<lparr>ID = ''2-1'', Timestamp = clock 2, Alert = sampleAlert ''firing'' ''C''\<rparr>,
      \<lparr>ID = ''2-0'', Timestamp = clock 2, Alert = sampleAlert ''firing'' ''B''\<rparr>,
      \<lparr>ID = ''1-0'', Timestamp = clock 1, Alert = sampleAlert ''firing'' ''A''\<rparr>])"
proof -
  let ?ops = "[Ingest (clock 1) \<lparr>Status = ''firing'', Alerts = [sampleAlert ''firing'' ''A'']\<rparr>,
      Ingest (clock 2) \<lparr>Status = ''firing'', Alerts = [sampleAlert ''firing'' ''B'', sampleAlert ''firing'' ''C'']\<rparr>]"
  have d: "distinct (ingestTimes ?ops)" by simp
  have r: "run (NewAppState 100) ?ops
    = Inr \<lparr>alerts = [\<lparr>ID = ''2-1'', Timestamp = clock 2, Alert = sampleAlert ''firing'' ''C''\<rparr>,
      \<lparr>ID = ''2-0'', Timestamp = clock 2, Alert = sampleAlert ''firing'' ''B''\<rparr>,
      \<lparr>ID = ''1-0'', Timestamp = clock 1, Alert = sampleAlert ''firing'' ''A''\<rparr>],
      maxSize = 100, acknowledged = fmempty\<rparr>"
    by (simp add: eval_simps eval_id showNat.simps)
  from ids_distinct_when_clock_readings_distinct [OF d r] show ?thesis by simp
qed

text \<open>Two ingestions whose wall clock readings coincide give two entries the same id.\<close>

theorem same_clock_reading_same_id:
  "run (NewAppState 100)
     [Ingest \<lparr>UnixNano = 1, monotonic = 1\<rparr> \<lparr>Status = ''firing'', Alerts = [sampleAlert ''firing'' ''A'']\<rparr>,
      Ingest \<lparr>UnixNano = 1, monotonic = 2\<rparr> \<lparr>Status = ''firing'', Alerts = [sampleAlert ''firing'' ''B'']\<rparr>]
    = Inr \<lparr>alerts = [\<lparr>ID = ''1-0'', Timestamp = \<lparr>UnixNano = 1, monotonic = 2\<rparr>,
                        Alert = sampleAlert ''firing'' ''B''\<rparr>,
                      \<lparr>ID = ''1-0'', Timestamp = \<lparr>UnixNano = 1, monotonic = 1\<rparr>,
                        Alert = sampleAlert ''firing'' ''A''\<rparr>],
             maxSize = 100, acknowledged = fmempty\<rparr>
   \<and> \<not> distinct (map ID [\<lparr>ID = ''1-0'', Timestamp = \<lparr>UnixNano = 1, monotonic = 2\<rparr>,
                        Alert = sampleAlert ''firing'' ''B''\<rparr>,
                      \<lparr>ID = ''1-0'', Timestamp = \<lparr>UnixNano = 1, monotonic = 1\<rparr>,
                        Alert = sampleAlert ''firing'' ''A''\<rparr>])"
  by (simp add: eval_simps eval_id showNat.simps)

section \<open>The acknowledged map and the stored entries\<close>

lemma removal_drops_id:
  assumes "e \<in> set (alerts a)" and "e \<notin> set (alerts (fst (removeMatchingFiringAlerts a as)))"
  shows "ID e |\<notin>| fmdom (acknowledged (fst (removeMatchingFiringAlerts a as)))"
proof -
  let ?rs = "filter (\<lambda>x. Alert.Status x = ''resolved'') as"
  from assms have "entryMatch ?rs e \<noteq> None" by (simp add: removeMatchingFiringAlerts_eq)
  with assms(1) have "ID e \<in> set (map ID (filter (\<lambda>e. entryMatch ?rs e \<noteq> None) (alerts a)))"
    by auto
  then show ?thesis
    by (auto simp: removeMatchingFiringAlerts_eq fset_of_list.rep_eq)
qed

lemma clear_drops_id:
  assumes "e \<in> set (alerts a)" and "e \<notin> set (alerts (fst (ClearAcknowledgedAndResolved a)))"
  shows "ID e |\<notin>| fmdom (acknowledged (fst (ClearAcknowledgedAndResolved a)))"
proof -
  obtain s c where sc: "ClearAcknowledgedAndResolved a = (s, c)" by (cases "ClearAcknowledgedAndResolved a")
  then have cl: "clearLoop (alerts a) [] (acknowledged a) 0 = (alerts s, acknowledged s, c)"
    by (auto simp: ClearAcknowledgedAndResolved_def split: prod.splits)
  from assms sc clear_keeps_unacked [OF cl, of e] have "\<not> firingUnacknowledged (acknowledged a) e"
    by auto
  from clear_removed_ids [OF cl assms(1) this] sc show ?thesis by simp
qed

lemma ackValid_removeMatching:
  assumes "\<forall>k. k |\<in>| fmdom (acknowledged a) \<longrightarrow> k \<in> ID ` set (alerts a)"
    and "k |\<in>| fmdom (acknowledged (fst (removeMatchingFiringAlerts a as)))"
  shows "k \<in> ID ` set (alerts (fst (removeMatchingFiringAlerts a as)))"
proof -
  from assms(2) have "k |\<in>| fmdom (acknowledged a)"
    by (simp add: removeMatchingFiringAlerts_eq)
  with assms(1) obtain e where e: "e \<in> set (alerts a)" "k = ID e" by auto
  have "e \<in> set (alerts (fst (removeMatchingFiringAlerts a as)))"
  proof (rule ccontr)
    assume "e \<notin> set (alerts (fst (removeMatchingFiringAlerts a as)))"
    from removal_drops_id [OF e(1) this] assms(2) e(2) show False by simp
  qed
  with e show ?thesis by blast
qed

lemma ackValid_clear:
  assumes "\<forall>k. k |\<in>| fmdom (acknowledged a) \<longrightarrow> k \<in> ID ` set (alerts a)"
    and "k |\<in>| fmdom (acknowledged (fst (ClearAcknowledgedAndResolved a)))"
  shows "k \<in> ID ` set (alerts (fst (ClearAcknowledgedAndResolved a)))"
proof -
  obtain s c where sc: "ClearAcknowledgedAndResolved a = (s, c)" by (cases "ClearAcknowledgedAndResolved a")
  then have cl: "clearLoop (alerts a) [] (acknowledged a) 0 = (alerts s, acknowledged s, c)"
    by (auto simp: ClearAcknowledgedAndResolved_def split: prod.splits)
  from clear_ack_shrinks [OF cl] assms(2) sc have "k |\<in>| fmdom (acknowledged a)" by auto
  with assms(1) obtain e where e: "e \<in> set (alerts a)" "k = ID e" by auto
  have "e \<in> set (alerts (fst (ClearAcknowledgedAndResolved a)))"
  proof (rule ccontr)
    assume "e \<notin> set (alerts (fst (ClearAcknowledgedAndResolved a)))"
    from clear_drops_id [OF e(1) this] assms(2) e(2) show False by simp
  qed
  with e show ?thesis by blast
qed

lemma reachedKeepingAll_ackValid:
  "reachedKeepingAll n a \<Longrightarrow> \<forall>k. k |\<in>| fmdom (acknowledged a) \<longrightarrow> k \<in> ID ` set (alerts a)"
proof (induction rule: reachedKeepingAll.induct)
  case reached_new
  then show ?case by (simp add: NewAppState_def)
next
  case (reached_ingest a timestamp payload a')
  from reached_ingest.hyps(2,3) have a': "a' = ingested a timestamp payload"
    by (simp add: AddWebhook_Inr_iff)
  show ?case
  proof (intro allI impI)
    fix k assume "k |\<in>| fmdom (acknowledged a')"
    then have "k |\<in>| fmdom (acknowledged (fst (removeMatchingFiringAlerts a (Alerts payload))))"
      by (simp add: a' ingested_eq split_beta)
    from ackValid_removeMatching [OF reached_ingest.IH this]
    show "k \<in> ID ` set (alerts a')" by (auto simp: a' alerts_ingested)
  qed
next
  case (reached_acknowledge a entry)
  then show ?case by (auto simp: Acknowledge_def)
next
  case (reached_clear a)
  then show ?case using ackValid_clear by blast
qed


text \<open>
  Claim C8, as amended. In every state reached from the empty store by ingestions that the
  truncation leaves whole, acknowledgements of ids of stored entries, and clearings, every
  id in the acknowledged map is the id of a stored entry. In any state, an entry that the
  reconciliation pass or \<^verbatim>\<open>ClearAcknowledgedAndResolved\<close> removes has its id removed from
  the acknowledged map. An entry acknowledged and then resolved by a notification with its
  labels leaves the acknowledged map empty.
\<close>

theorem acknowledged_ids_are_stored:
  "(reachedKeepingAll n a \<longrightarrow> (\<forall>k. k |\<in>| fmdom (acknowledged a) \<longrightarrow> k \<in> ID ` set (alerts a)))
   \<and> (\<forall>(s::AppState) as (e::AlertEntry).
         e \<in> set (alerts s) \<and> e \<notin> set (alerts (fst (removeMatchingFiringAlerts s as))) \<longrightarrow>
         ID e |\<notin>| fmdom (acknowledged (fst (removeMatchingFiringAlerts s as))))
   \<and> (\<forall>(s::AppState) (e::AlertEntry).
         e \<in> set (alerts s) \<and> e \<notin> set (alerts (fst (ClearAcknowledgedAndResolved s))) \<longrightarrow>
         ID e |\<notin>| fmdom (acknowledged (fst (ClearAcknowledgedAndResolved s))))
   \<and> run (NewAppState 100)
        [Ingest (clock 1) \<lparr>Status = ''firing'', Alerts = [sampleAlert ''firing'' ''A'']\<rparr>,
         Ack ''1-0'',
         Ingest (clock 2) \<lparr>Status = ''resolved'', Alerts = [sampleAlert ''resolved'' ''A'']\<rparr>]
      = Inr \<lparr>alerts = [\<lparr>ID = ''2-0'', Timestamp = clock 2, Alert = sampleAlert ''resolved'' ''A''\<rparr>],
              maxSize = 100, acknowledged = fmempty\<rparr>"
proof -
  have 1: "reachedKeepingAll n a \<longrightarrow> (\<forall>k. k |\<in>| fmdom (acknowledged a) \<longrightarrow> k \<in> ID ` set (alerts a))"
    using reachedKeepingAll_ackValid by blast
  have 2: "\<forall>(s::AppState) as (e::AlertEntry).
         e \<in> set (alerts s) \<and> e \<notin> set (alerts (fst (removeMatchingFiringAlerts s as))) \<longrightarrow>
         ID e |\<notin>| fmdom (acknowledged (fst (removeMatchingFiringAlerts s as)))"
    using removal_drops_id by blast
  have 3: "\<forall>(s::AppState) (e::AlertEntry).
         e \<in> set (alerts s) \<and> e \<notin> set (alerts (fst (ClearAcknowledgedAndResolved s))) \<longrightarrow>
         ID e |\<notin>| fmdom (acknowledged (fst (ClearAcknowledgedAndResolved s)))"
    using clear_drops_id by blast
  have 4: "run (NewAppState 100)
        [Ingest (clock 1) \<lparr>Status = ''firing'', Alerts = [sampleAlert ''firing'' ''A'']\<rparr>,
         Ack ''1-0'',
         Ingest (clock 2) \<lparr>Status = ''resolved'', Alerts = [sampleAlert ''resolved'' ''A'']\<rparr>]
      = Inr \<lparr>alerts = [\<lparr>ID = ''2-0'', Timestamp = clock 2, Alert = sampleAlert ''resolved'' ''A''\<rparr>],
              maxSize = 100, acknowledged = fmempty\<rparr>"
    by (simp add: eval_simps eval_id showNat.simps Acknowledge_def fmdrop_fmupd)
  from 1 2 3 4 show ?thesis by blast
qed

theorem acknowledged_ids_are_stored_witness:
  "reachedKeepingAll 100
     \<lparr>alerts = [\<lparr>ID = ''1-0'', Timestamp = clock 1, Alert = sampleAlert ''firing'' ''A''\<rparr>],
      maxSize = 100, acknowledged = fmupd ''1-0'' True fmempty\<rparr>
   \<and> ''1-0'' \<in> ID ` set [\<lparr>ID = ''1-0'', Timestamp = clock 1, Alert = sampleAlert ''firing'' ''A''\<rparr>]"
proof -
  let ?e = "\<lparr>ID = ''1-0'', Timestamp = clock 1, Alert = sampleAlert ''firing'' ''A''\<rparr>"
  let ?s1 = "\<lparr>alerts = [?e], maxSize = 100, acknowledged = fmempty\<rparr>"
  let ?p = "\<lparr>Status = ''firing'', Alerts = [sampleAlert ''firing'' ''A'']\<rparr>"
  have i: "AddWebhook (NewAppState 100) (clock 1) ?p = Inr ?s1"
    by (simp add: eval_simps eval_id showNat.simps)
  have l: "int (length (alerts (ingested (NewAppState 100) (clock 1) ?p))) \<le> maxSize (NewAppState 100)"
    by (simp add: eval_simps)
  have "reachedKeepingAll 100 ?s1"
    by (rule reached_ingest [OF reached_new i l])
  from reached_acknowledge [OF this, of ?e]
  have r: "reachedKeepingAll 100 \<lparr>alerts = [?e], maxSize = 100, acknowledged = fmupd ''1-0'' True fmempty\<rparr>"
    by (simp add: Acknowledge_def)
  from acknowledged_ids_are_stored
    [of 100 "\<lparr>alerts = [?e], maxSize = 100, acknowledged = fmupd ''1-0'' True fmempty\<rparr>"] r
  show ?thesis by simp
qed

text \<open>\<^verbatim>\<open>Acknowledge\<close> stores whatever id it is given: after it, the acknowledged map holds
  an id that no stored entry has.\<close>

theorem acknowledge_unknown_id_is_kept:
  "run (NewAppState 100) [Ack ''stale'']
     = Inr \<lparr>alerts = [], maxSize = 100, acknowledged = fmupd ''stale'' True fmempty\<rparr>
   \<and> ''stale'' |\<in>| fmdom (acknowledged \<lparr>alerts = [], maxSize = 100, acknowledged = fmupd ''stale'' True fmempty\<rparr>)
   \<and> ''stale'' \<notin> ID ` set (alerts \<lparr>alerts = [], maxSize = 100, acknowledged = fmupd ''stale'' True fmempty\<rparr>)"
  by (simp add: NewAppState_def Acknowledge_def)

text \<open>The truncation of \<^verbatim>\<open>AddWebhook\<close> drops entries without touching the acknowledged
  map: with \<^verbatim>\<open>maxSize = 1\<close>, an acknowledged entry pushed out by the next firing alert
  leaves its id behind.\<close>

lemma truncation_leaves_acknowledged_id:
  "run (NewAppState 1)
     [Ingest (clock 1) \<lparr>Status = ''firing'', Alerts = [sampleAlert ''firing'' ''A'']\<rparr>,
      Ack ''1-0'',
      Ingest (clock 2) \<lparr>Status = ''firing'', Alerts = [sampleAlert ''firing'' ''B'']\<rparr>]
   = Inr \<lparr>alerts = [\<lparr>ID = ''2-0'', Timestamp = clock 2, Alert = sampleAlert ''firing'' ''B''\<rparr>],
           maxSize = 1, acknowledged = fmupd ''1-0'' True fmempty\<rparr>"
  by (simp add: eval_simps eval_id showNat.simps Acknowledge_def)

section \<open>A resolved alert that matches a firing entry\<close>

lemma count_one_of_distinct_ids:
  assumes "distinct (map ID xs)" and "x \<in> set xs"
  shows "length (filter (\<lambda>y. ID y = ID x) xs) = 1"
proof -
  have "length (filter (\<lambda>y. ID y = ID x) xs) = length (filter (\<lambda>k. k = ID x) (map ID xs))"
    by (simp add: comp_def)
  also have "\<dots> = card ({k. k = ID x} \<inter> set (map ID xs))"
    using assms(1) by (rule distinct_length_filter)
  also have "{k. k = ID x} \<inter> set (map ID xs) = {ID x}"
    using assms(2) by auto
  finally show ?thesis by simp
qed

lemma new_entries_distinct_ids:
  "distinct (map ID (rev (map (\<lambda>(j, x). \<lparr>ID = mkID b j, Timestamp = ts, Alert = x\<rparr>)
        (filter P (zip [i..<i + length as] as)))))"
proof -
  let ?idx = "map fst (filter P (zip [i..<i + length as] as))"
  have "distinct ?idx" by (rule distinct_fst_filter_zip)
  moreover have "inj_on (mkID b) (set ?idx)" by (simp add: inj_on_def mkID_inj)
  ultimately have "distinct (map (mkID b) ?idx)" by (simp only: distinct_map simp_thms)
  then have "distinct (map ID (map (\<lambda>(j, x). \<lparr>ID = mkID b j, Timestamp = ts, Alert = x\<rparr>)
        (filter P (zip [i..<i + length as] as))))"
    by (simp only: new_entries_ids)
  then show ?thesis by (simp only: rev_map [symmetric] distinct_rev)
qed

lemma ingested_matching_resolved:
  assumes i: "i < length (Alerts p)"
    and q: "Alert.Status (Alerts p ! i) = ''resolved''"
    and e: "e \<in> set (alerts a)"
    and f: "Alert.Status (Alert e) = ''firing''"
    and m: "alertsMatch (Alerts p ! i) (Alert e)"
  shows "\<exists>new. alerts (ingested a ts p) =
            new @ filter (\<lambda>x. \<not> (Alert.Status (Alert x) = ''firing''
                     \<and> (\<exists>r\<in>set (Alerts p). Alert.Status r = ''resolved'' \<and> alertsMatch r (Alert x))))
                   (alerts a)
          \<and> \<lparr>ID = mkID (UnixNano ts) i, Timestamp = ts, Alert = Alerts p ! i\<rparr> \<in> set new
          \<and> length (filter (\<lambda>x. ID x = mkID (UnixNano ts) i) new) = 1"
    and "e \<notin> set (filter (\<lambda>x. \<not> (Alert.Status (Alert x) = ''firing''
                     \<and> (\<exists>r\<in>set (Alerts p). Alert.Status r = ''resolved'' \<and> alertsMatch r (Alert x))))
                   (alerts a))"
    and "ID e |\<notin>| fmdom (acknowledged (ingested a ts p))"
proof -
  let ?as = "Alerts p"
  let ?q = "Alerts p ! i"
  let ?rs = "filter (\<lambda>x. Alert.Status x = ''resolved'') ?as"
  let ?matched = "snd (removeMatchingFiringAlerts a ?as)"
  let ?P = "\<lambda>(j, x). \<not> (Alert.Status x = ''resolved'' \<and> \<not> matchedBy x ?matched)"
  let ?mk = "\<lambda>(j, x). \<lparr>ID = mkID (UnixNano ts) j, Timestamp = ts, Alert = x\<rparr>"
  let ?new = "rev (map ?mk (filter ?P (zip [0..<0 + length ?as] ?as)))"
  let ?keep = "\<lambda>x. \<not> (Alert.Status (Alert x) = ''firing''
                     \<and> (\<exists>r\<in>set ?as. Alert.Status r = ''resolved'' \<and> alertsMatch r (Alert x)))"
  have kept: "alerts (fst (removeMatchingFiringAlerts a ?as)) = filter ?keep (alerts a)"
    by (simp add: removeMatchingFiringAlerts_eq entryMatch_filter_resolved)
  have al: "alerts (ingested a ts p) = ?new @ filter ?keep (alerts a)"
    using alerts_ingested [of a ts p] kept by simp
  from i have qin: "?q \<in> set ?as" by simp
  with q f m have nk: "\<not> ?keep e" by blast
  then show notin: "e \<notin> set (filter ?keep (alerts a))" by simp
  from nk have "entryMatch ?rs e \<noteq> None" by (simp add: entryMatch_filter_resolved)
  then obtain r where r: "entryMatch ?rs e = Some r" by auto
  with e have rin: "r \<in> set ?matched"
    by (auto simp: removeMatchingFiringAlerts_eq set_map_filter)
  from entryMatch_first [OF r] have "alertsMatch r (Alert e)" by blast
  with m have "alertsMatch ?q r" using alertsMatch_labels by metis
  with rin have mb: "matchedBy ?q ?matched" by (auto simp: matchedBy_iff)
  have "(i, ?q) \<in> set (zip [0..<0 + length ?as] ?as)"
    unfolding in_set_zip using i by (intro exI [of _ i]) simp
  with mb have "(i, ?q) \<in> set (filter ?P (zip [0..<0 + length ?as] ?as))" by simp
  then have "?mk (i, ?q) \<in> set ?new" unfolding set_rev set_map by (rule imageI)
  then have inn: "\<lparr>ID = mkID (UnixNano ts) i, Timestamp = ts, Alert = ?q\<rparr> \<in> set ?new" by simp
  have "distinct (map ID ?new)" by (rule new_entries_distinct_ids)
  from count_one_of_distinct_ids [OF this inn]
  have one: "length (filter (\<lambda>x. ID x = mkID (UnixNano ts) i) ?new) = 1" by simp
  from al inn one
  show "\<exists>new. alerts (ingested a ts p) = new @ filter ?keep (alerts a)
          \<and> \<lparr>ID = mkID (UnixNano ts) i, Timestamp = ts, Alert = ?q\<rparr> \<in> set new
          \<and> length (filter (\<lambda>x. ID x = mkID (UnixNano ts) i) new) = 1"
    by blast
  from notin kept have "e \<notin> set (alerts (fst (removeMatchingFiringAlerts a ?as)))" by simp
  from removal_drops_id [OF e this]
  show "ID e |\<notin>| fmdom (acknowledged (ingested a ts p))"
    by (simp add: ingested_eq split_beta)
qed


text \<open>
  Claim C2, as amended. From an empty store with room for one entry, a firing alert with
  labels \<^verbatim>\<open>{alertname: "A"}\<close> leaves one unacknowledged firing entry; the resolved alert
  with the same labels then removes that entry and is stored itself, so the store holds
  exactly one entry, of status resolved, and nothing unacknowledged is firing. In any
  store and for a resolved alert at any position of any notification: if it matches a
  stored firing entry, the ingestion drops that entry from the stored ones, deletes its id
  from the acknowledged map, and puts exactly one new entry for the resolved alert, under
  that position's id, in front of the stored ones that stay; the store keeps the front of
  that list up to \<^verbatim>\<open>maxSize\<close>.
\<close>

theorem matching_resolved_replaces_firing:
  assumes "Alert.Status f = ''firing''" and "Alert.Status r = ''resolved''"
    and "Labels f = fmupd ''alertname'' ''A'' fmempty" and "Labels r = Labels f" and "1 \<le> n"
  shows "run (NewAppState n) [Ingest t1 \<lparr>Status = st1, Alerts = [f]\<rparr>]
        = Inr \<lparr>alerts = [\<lparr>ID = mkID (UnixNano t1) 0, Timestamp = t1, Alert = f\<rparr>],
               maxSize = n, acknowledged = fmempty\<rparr>
    \<and> HasUnacknowledgedAlerts \<lparr>alerts = [\<lparr>ID = mkID (UnixNano t1) 0, Timestamp = t1, Alert = f\<rparr>],
               maxSize = n, acknowledged = fmempty\<rparr>
    \<and> run (NewAppState n) [Ingest t1 \<lparr>Status = st1, Alerts = [f]\<rparr>, Ingest t2 \<lparr>Status = st2, Alerts = [r]\<rparr>]
        = Inr \<lparr>alerts = [\<lparr>ID = mkID (UnixNano t2) 0, Timestamp = t2, Alert = r\<rparr>],
               maxSize = n, acknowledged = fmempty\<rparr>
    \<and> \<not> HasUnacknowledgedAlerts \<lparr>alerts = [\<lparr>ID = mkID (UnixNano t2) 0, Timestamp = t2, Alert = r\<rparr>],
               maxSize = n, acknowledged = fmempty\<rparr>
    \<and> (\<forall>(a::AppState) (ts::Time) (p::WebhookPayload) i (e::AlertEntry).
          i < length (Alerts p) \<and> Alert.Status (Alerts p ! i) = ''resolved''
          \<and> e \<in> set (alerts a) \<and> Alert.Status (Alert e) = ''firing''
          \<and> alertsMatch (Alerts p ! i) (Alert e) \<longrightarrow>
          (\<exists>new. alerts (ingested a ts p) =
                new @ filter (\<lambda>x. \<not> (Alert.Status (Alert x) = ''firing''
                         \<and> (\<exists>q\<in>set (Alerts p). Alert.Status q = ''resolved'' \<and> alertsMatch q (Alert x))))
                       (alerts a)
              \<and> \<lparr>ID = mkID (UnixNano ts) i, Timestamp = ts, Alert = Alerts p ! i\<rparr> \<in> set new
              \<and> length (filter (\<lambda>x. ID x = mkID (UnixNano ts) i) new) = 1)
          \<and> e \<notin> set (filter (\<lambda>x. \<not> (Alert.Status (Alert x) = ''firing''
                         \<and> (\<exists>q\<in>set (Alerts p). Alert.Status q = ''resolved'' \<and> alertsMatch q (Alert x))))
                       (alerts a))
          \<and> ID e |\<notin>| fmdom (acknowledged (ingested a ts p))
          \<and> (\<forall>a'. AddWebhook a ts p = Inr a' \<longrightarrow>
                alerts a' = take (nat (maxSize a)) (alerts (ingested a ts p))
                \<and> ID e |\<notin>| fmdom (acknowledged a')))"
proof -
  let ?s1 = "\<lparr>alerts = [\<lparr>ID = mkID (UnixNano t1) 0, Timestamp = t1, Alert = f\<rparr>],
               maxSize = n, acknowledged = fmempty\<rparr>"
  let ?s2 = "\<lparr>alerts = [\<lparr>ID = mkID (UnixNano t2) 0, Timestamp = t2, Alert = r\<rparr>],
               maxSize = n, acknowledged = fmempty\<rparr>"
  have i1: "AddWebhook (NewAppState n) t1 \<lparr>Status = st1, Alerts = [f]\<rparr> = Inr ?s1"
    using assms by (simp add: eval_simps)
  have i2: "AddWebhook ?s1 t2 \<lparr>Status = st2, Alerts = [r]\<rparr> = Inr ?s2"
    using assms by (simp add: eval_simps)
  have 1: "run (NewAppState n) [Ingest t1 \<lparr>Status = st1, Alerts = [f]\<rparr>] = Inr ?s1"
    by (simp add: i1)
  have 2: "HasUnacknowledgedAlerts ?s1"
    using assms by (simp add: HasUnacknowledgedAlerts_def isAck_def)
  have 3: "run (NewAppState n) [Ingest t1 \<lparr>Status = st1, Alerts = [f]\<rparr>, Ingest t2 \<lparr>Status = st2, Alerts = [r]\<rparr>]
        = Inr ?s2"
    by (simp add: i1 i2)
  have 4: "\<not> HasUnacknowledgedAlerts ?s2"
    using assms by (simp add: HasUnacknowledgedAlerts_def isAck_def)
  have 5: "\<forall>(a::AppState) (ts::Time) (p::WebhookPayload) i (e::AlertEntry).
          i < length (Alerts p) \<and> Alert.Status (Alerts p ! i) = ''resolved''
          \<and> e \<in> set (alerts a) \<and> Alert.Status (Alert e) = ''firing''
          \<and> alertsMatch (Alerts p ! i) (Alert e) \<longrightarrow>
          (\<exists>new. alerts (ingested a ts p) =
                new @ filter (\<lambda>x. \<not> (Alert.Status (Alert x) = ''firing''
                         \<and> (\<exists>q\<in>set (Alerts p). Alert.Status q = ''resolved'' \<and> alertsMatch q (Alert x))))
                       (alerts a)
              \<and> \<lparr>ID = mkID (UnixNano ts) i, Timestamp = ts, Alert = Alerts p ! i\<rparr> \<in> set new
              \<and> length (filter (\<lambda>x. ID x = mkID (UnixNano ts) i) new) = 1)
          \<and> e \<notin> set (filter (\<lambda>x. \<not> (Alert.Status (Alert x) = ''firing''
                         \<and> (\<exists>q\<in>set (Alerts p). Alert.Status q = ''resolved'' \<and> alertsMatch q (Alert x))))
                       (alerts a))
          \<and> ID e |\<notin>| fmdom (acknowledged (ingested a ts p))
          \<and> (\<forall>a'. AddWebhook a ts p = Inr a' \<longrightarrow>
                alerts a' = take (nat (maxSize a)) (alerts (ingested a ts p))
                \<and> ID e |\<notin>| fmdom (acknowledged a'))"
  proof (intro allI impI, elim conjE)
    fix a :: AppState and ts :: Time and p :: WebhookPayload and i and e :: AlertEntry
    assume h: "i < length (Alerts p)" "Alert.Status (Alerts p ! i) = ''resolved''"
      "e \<in> set (alerts a)" "Alert.Status (Alert e) = ''firing''"
      "alertsMatch (Alerts p ! i) (Alert e)"
    note g1 = ingested_matching_resolved(1) [OF h, of ts]
    note g2 = ingested_matching_resolved(2) [OF h]
    note g3 = ingested_matching_resolved(3) [OF h, of ts]
    have g4: "\<forall>a'. AddWebhook a ts p = Inr a' \<longrightarrow>
                alerts a' = take (nat (maxSize a)) (alerts (ingested a ts p))
                \<and> ID e |\<notin>| fmdom (acknowledged a')"
      using g3 by (auto simp: AddWebhook_Inr_iff)
    show "(\<exists>new. alerts (ingested a ts p) =
                new @ filter (\<lambda>x. \<not> (Alert.Status (Alert x) = ''firing''
                         \<and> (\<exists>q\<in>set (Alerts p). Alert.Status q = ''resolved'' \<and> alertsMatch q (Alert x))))
                       (alerts a)
              \<and> \<lparr>ID = mkID (UnixNano ts) i, Timestamp = ts, Alert = Alerts p ! i\<rparr> \<in> set new
              \<and> length (filter (\<lambda>x. ID x = mkID (UnixNano ts) i) new) = 1)
          \<and> e \<notin> set (filter (\<lambda>x. \<not> (Alert.Status (Alert x) = ''firing''
                         \<and> (\<exists>q\<in>set (Alerts p). Alert.Status q = ''resolved'' \<and> alertsMatch q (Alert x))))
                       (alerts a))
          \<and> ID e |\<notin>| fmdom (acknowledged (ingested a ts p))
          \<and> (\<forall>a'. AddWebhook a ts p = Inr a' \<longrightarrow>
                alerts a' = take (nat (maxSize a)) (alerts (ingested a ts p))
                \<and> ID e |\<notin>| fmdom (acknowledged a'))"
      by (rule conjI [OF g1 conjI [OF g2 conjI [OF g3 g4]]])
  qed
  show ?thesis by (rule conjI [OF 1 conjI [OF 2 conjI [OF 3 conjI [OF 4 5]]]])
qed

theorem matching_resolved_replaces_firing_witness:
  "run (NewAppState 100)
      [Ingest (clock 1) \<lparr>Status = ''firing'', Alerts = [sampleAlert ''firing'' ''A'']\<rparr>,
       Ingest (clock 2) \<lparr>Status = ''resolved'', Alerts = [sampleAlert ''resolved'' ''A'']\<rparr>]
    = Inr \<lparr>alerts = [\<lparr>ID = ''2-0'', Timestamp = clock 2, Alert = sampleAlert ''resolved'' ''A''\<rparr>],
           maxSize = 100, acknowledged = fmempty\<rparr>
   \<and> ''1-0'' |\<notin>| fmdom (acknowledged (ingested
        \<lparr>alerts = [\<lparr>ID = ''1-0'', Timestamp = clock 1, Alert = sampleAlert ''firing'' ''A''\<rparr>],
         maxSize = 100, acknowledged = fmupd ''1-0'' True fmempty\<rparr> (clock 2)
        \<lparr>Status = ''firing'', Alerts = [sampleAlert ''firing'' ''B'', sampleAlert ''resolved'' ''A'']\<rparr>))"
proof -
  let ?e = "\<lparr>ID = ''1-0'', Timestamp = clock 1, Alert = sampleAlert ''firing'' ''A''\<rparr>"
  let ?a = "\<lparr>alerts = [?e], maxSize = 100, acknowledged = fmupd ''1-0'' True fmempty\<rparr>"
  let ?p = "\<lparr>Status = ''firing'', Alerts = [sampleAlert ''firing'' ''B'', sampleAlert ''resolved'' ''A'']\<rparr>"
  note t = matching_resolved_replaces_firing
    [of "sampleAlert ''firing'' ''A''" "sampleAlert ''resolved'' ''A''" 100 "clock 1" "''firing''"
        "clock 2" "''resolved''"]
  have p1: "Alert.Status (sampleAlert ''firing'' ''A'') = ''firing''"
    and p2: "Alert.Status (sampleAlert ''resolved'' ''A'') = ''resolved''"
    and p3: "Labels (sampleAlert ''firing'' ''A'') = fmupd ''alertname'' ''A'' fmempty"
    and p4: "Labels (sampleAlert ''resolved'' ''A'') = Labels (sampleAlert ''firing'' ''A'')"
    and p5: "(1::int) \<le> 100"
    by simp_all
  note c = t [OF p1 p2 p3 p4 p5]
  have h: "(1::nat) < length (Alerts ?p) \<and> Alert.Status (Alerts ?p ! 1) = ''resolved''
      \<and> ?e \<in> set (alerts ?a) \<and> Alert.Status (Alert ?e) = ''firing''
      \<and> alertsMatch (Alerts ?p ! 1) (Alert ?e)"
    by (simp add: alertsMatch_labels)
  from c [THEN conjunct2, THEN conjunct2, THEN conjunct1]
  have s: "run (NewAppState 100)
      [Ingest (clock 1) \<lparr>Status = ''firing'', Alerts = [sampleAlert ''firing'' ''A'']\<rparr>,
       Ingest (clock 2) \<lparr>Status = ''resolved'', Alerts = [sampleAlert ''resolved'' ''A'']\<rparr>]
    = Inr \<lparr>alerts = [\<lparr>ID = ''2-0'', Timestamp = clock 2, Alert = sampleAlert ''resolved'' ''A''\<rparr>],
           maxSize = 100, acknowledged = fmempty\<rparr>"
    by (simp add: eval_id showNat.simps)
  have "ID ?e |\<notin>| fmdom (acknowledged (ingested ?a (clock 2) ?p))"
    by (rule c [THEN conjunct2, THEN conjunct2, THEN conjunct2, THEN conjunct2, rule_format,
                THEN conjunct2, THEN conjunct2, THEN conjunct1, OF h])
  then have "''1-0'' |\<notin>| fmdom (acknowledged (ingested ?a (clock 2) ?p))" by simp
  with s show ?thesis by (rule conjI)
qed

text \<open>After the firing and the resolved notification the store is not empty: it holds the
  entry of the resolved alert.\<close>

theorem store_not_empty_after_resolved:
  "run (NewAppState 100)
      [Ingest (clock 1) \<lparr>Status = ''firing'', Alerts = [sampleAlert ''firing'' ''A'']\<rparr>,
       Ingest (clock 2) \<lparr>Status = ''resolved'', Alerts = [sampleAlert ''resolved'' ''A'']\<rparr>]
    = Inr \<lparr>alerts = [\<lparr>ID = ''2-0'', Timestamp = clock 2, Alert = sampleAlert ''resolved'' ''A''\<rparr>],
           maxSize = 100, acknowledged = fmempty\<rparr>
   \<and> alerts \<lparr>alerts = [\<lparr>ID = ''2-0'', Timestamp = clock 2, Alert = sampleAlert ''resolved'' ''A''\<rparr>],
           maxSize = 100, acknowledged = fmempty\<rparr> \<noteq> []"
  by (simp add: eval_simps eval_id showNat.simps)

end
